theory Spec2Isabelle
  imports Complex_Main "HOL-Library.AList" "HOL-Library.Multiset"
begin

section \<open>Python values shared by the three modules\<close>

text \<open>
  The exceptions that the modelled functions can raise.  An \<^verbatim>\<open>assert\<close> that fails raises
  \<^verbatim>\<open>AssertionError\<close>; the others come from built-in operations on dictionaries, sequences
  and bit arrays.  A function that can raise returns \<open>error + 'a\<close>, with \<open>Inl\<close> the exception.
  An \<^verbatim>\<open>AssertionError\<close> carries the message of the assertion as the source writes it, with
  the format arguments not filled in; where the message is a value that is not a string, or
  is absent, it carries the name of the asserted variable.
\<close>

datatype error = AssertionError string | KeyError | ValueError | IndexError

text \<open>
  The module \<^verbatim>\<open>random\<close> of the Python library is not part of the repository.  Its hidden
  module-level generator is a state of an arbitrary type \<open>'g\<close>, and the five operations the
  repository calls are the fields of a record that every modelled function takes as its
  first argument:
  \<^item> \<^verbatim>\<open>random.random()\<close> returns a float and the advanced state.  A float is a rational
    number and \<^verbatim>\<open><=\<close> on floats is exact, so the draw is a \<open>real\<close>;
  \<^item> \<^verbatim>\<open>random.choice([0,1])\<close> returns one of the two bits;
  \<^item> \<^verbatim>\<open>random.seed(n)\<close> replaces the state by one that depends on \<open>n\<close> alone;
  \<^item> \<^verbatim>\<open>random.randint(a, b)\<close> returns an integer;
  \<^item> \<^verbatim>\<open>random.shuffle(l)\<close> reorders the list \<open>l\<close>.
\<close>

record ('g, 'a) random_module =
  rnd_random :: "'g \<Rightarrow> real \<times> 'g"
  rnd_choice :: "'g \<Rightarrow> bool \<times> 'g"
  rnd_seed :: "nat \<Rightarrow> 'g"
  rnd_randint :: "int \<Rightarrow> int \<Rightarrow> 'g \<Rightarrow> int \<times> 'g"
  rnd_shuffle :: "'a list \<Rightarrow> 'g \<Rightarrow> 'a list \<times> 'g"

text \<open>The documented ranges of the library functions.\<close>

definition random_in_unit_interval :: "('g, 'a) random_module \<Rightarrow> bool" where
  "random_in_unit_interval R \<longleftrightarrow>
     (\<forall>g. 0 \<le> fst (rnd_random R g) \<and> fst (rnd_random R g) < 1)"

definition randint_in_range :: "('g, 'a) random_module \<Rightarrow> bool" where
  "randint_in_range R \<longleftrightarrow>
     (\<forall>a b g. a \<le> b \<longrightarrow> a \<le> fst (rnd_randint R a b g) \<and> fst (rnd_randint R a b g) \<le> b)"

definition shuffle_permutes :: "('g, 'a) random_module \<Rightarrow> bool" where
  "shuffle_permutes R \<longleftrightarrow> (\<forall>l g. mset (fst (rnd_shuffle R l g)) = mset l)"

text \<open>
  A small concrete generator for evaluating the model: the state is a counter, every
  operation advances it by one, \<^verbatim>\<open>random()\<close> cycles through 0, 1/4, 1/2, 3/4,
  \<^verbatim>\<open>choice\<close> returns the parity of the counter and \<^verbatim>\<open>shuffle\<close> reverses the list.
\<close>

definition counter_gen :: "(nat, 'a) random_module" where
  "counter_gen =
     \<lparr> rnd_random = (\<lambda>g. (real (g mod 4) / 4, Suc g)),
       rnd_choice = (\<lambda>g. (odd g, Suc g)),
       rnd_seed = (\<lambda>n. n),
       rnd_randint = (\<lambda>a b g. (a + int g mod (b - a + 1), Suc g)),
       rnd_shuffle = (\<lambda>l g. (rev l, Suc g)) \<rparr>"

text \<open>The states reached by \<open>n\<close> successive calls of \<^verbatim>\<open>random.random()\<close>, and the draws.\<close>

fun random_draws :: "('g, 'a) random_module \<Rightarrow> nat \<Rightarrow> 'g \<Rightarrow> real list" where
  "random_draws R 0 g = []"
| "random_draws R (Suc n) g = fst (rnd_random R g) # random_draws R n (snd (rnd_random R g))"

fun after_draws :: "('g, 'a) random_module \<Rightarrow> nat \<Rightarrow> 'g \<Rightarrow> 'g" where
  "after_draws R 0 g = g"
| "after_draws R (Suc n) g = after_draws R n (snd (rnd_random R g))"

section \<open>hardening.py: the BLIP hardener\<close>

record BLIP =
  blip_type :: string
  sel_method :: string
  random_seed :: "int option"
  blip_prob :: real

text \<open>
  \<^verbatim>\<open>BLIP.__init__(sel_method, blip_prob, random_seed)\<close>: two assertions, then the three
  arguments are stored.  The seed is stored and nothing else is done with it; the
  constructor does not touch the generator.
\<close>

definition BLIP_init :: "string \<Rightarrow> real \<Rightarrow> int option \<Rightarrow> error + BLIP" where
  "BLIP_init sel p seed =
     (if sel \<notin> set [''ala'', ''sch''] then Inl (AssertionError sel)
      else if \<not> (0 \<le> p \<and> p \<le> 1) then Inl (AssertionError ''blip_prob'')
      else Inr \<lparr> blip_type = ''BLP'', sel_method = sel, random_seed = seed, blip_prob = p \<rparr>)"

text \<open>
  The body of the loop of \<^verbatim>\<open>harden_bf\<close> at one position: the draw \<^verbatim>\<open>rand\<close>, the test
  \<^verbatim>\<open>rand <= self.blip_prob\<close>, and the new bit.  \<^verbatim>\<open>new_bit\<close> starts as 0 and stays 0 when
  the position is selected and the method is neither \<^verbatim>\<open>'ala'\<close> nor \<^verbatim>\<open>'sch'\<close>.
\<close>

definition harden_bit :: "('g, 'a) random_module \<Rightarrow> BLIP \<Rightarrow> bool \<Rightarrow> 'g \<Rightarrow> bool \<times> 'g" where
  "harden_bit R h b g =
     (let (rand, g1) = rnd_random R g in
      if rand \<le> blip_prob h then
        (if sel_method h = ''ala'' then ((if b = False then True else False), g1)
         else if sel_method h = ''sch'' then rnd_choice R g1
         else (False, g1))
      else (b, g1))"

text \<open>
  \<^verbatim>\<open>for pos in range(bf_len)\<close>: the positions still to visit, the output array and the
  generator are the loop state.
\<close>

fun harden_loop ::
  "('g, 'a) random_module \<Rightarrow> BLIP \<Rightarrow> bool list \<Rightarrow> nat list \<Rightarrow> bool list \<Rightarrow> 'g \<Rightarrow> bool list \<times> 'g"
where
  "harden_loop R h bf [] blip_bf g = (blip_bf, g)"
| "harden_loop R h bf (pos # rest) blip_bf g =
     (let (new_bit, g') = harden_bit R h (bf ! pos) g
      in harden_loop R h bf rest (blip_bf[pos := new_bit]) g')"

text \<open>
  \<^verbatim>\<open>harden_bf(bf)\<close>.  \<^verbatim>\<open>bitarray.bitarray(bf_len)\<close> allocates \<open>bf_len\<close> bits of unspecified
  content; the loop overwrites every one of them (lemma \<open>harden_loop_init\<close> below), and the
  model starts from zeros.  The input is only read.  The final assertion compares the two
  lengths.
\<close>

definition harden_bf ::
  "('g, 'a) random_module \<Rightarrow> BLIP \<Rightarrow> bool list \<Rightarrow> 'g \<Rightarrow> error + (bool list \<times> 'g)"
where
  "harden_bf R h bf g =
     (let bf_len = length bf;
          (blip_bf, g') = harden_loop R h bf [0..<bf_len] (replicate bf_len False) g
      in if length bf = length blip_bf then Inr (blip_bf, g') else Inl (AssertionError ''len(bf)''))"

section \<open>hashing.py: random hashing into a Bloom filter\<close>

text \<open>
  The hash function given to the constructor is applied as
  \<^verbatim>\<open>int(hash_funct(q_gram.encode("utf-8")).hexdigest(), 16)\<close>; the field \<open>hash_funct\<close> is that
  composition, from the q-gram to the integer.
\<close>

record RandomHashing =
  hash_funct :: "string \<Rightarrow> nat"
  bf_len :: int
  num_hash_funct :: int
  get_q_gram_pos :: bool

definition RandomHashing_init ::
  "(string \<Rightarrow> nat) \<Rightarrow> int \<Rightarrow> int \<Rightarrow> bool \<Rightarrow> error + RandomHashing"
where
  "RandomHashing_init hf len k gp =
     (if \<not> len > 1 then Inl (AssertionError ''bf_len'')
      else if \<not> k > 0 then Inl (AssertionError ''num_hash_funct'')
      else if gp \<notin> set [True, False] then Inl (AssertionError ''get_q_gram_pos'')
      else Inr \<lparr> hash_funct = hf, bf_len = len, num_hash_funct = k, get_q_gram_pos = gp \<rparr>)"

text \<open>
  \<^verbatim>\<open>bf[pos_i] = 1\<close> on a bit array: an index below zero counts from the end, an index
  outside the array raises \<^verbatim>\<open>IndexError\<close>.
\<close>

definition bitarray_setitem :: "bool list \<Rightarrow> int \<Rightarrow> bool \<Rightarrow> error + bool list" where
  "bitarray_setitem bf i v =
     (if 0 \<le> i \<and> i < int (length bf) then Inr (bf[nat i := v])
      else if - int (length bf) \<le> i \<and> i < 0 then Inr (bf[nat (int (length bf) + i) := v])
      else Inl IndexError)"

text \<open>
  \<^verbatim>\<open>random.randint(a, b)\<close> raises \<^verbatim>\<open>ValueError\<close> on an empty range, \<open>b < a\<close>, before it
  draws.
\<close>

definition randint :: "('g, 'a) random_module \<Rightarrow> int \<Rightarrow> int \<Rightarrow> 'g \<Rightarrow> error + (int \<times> 'g)" where
  "randint R a b g = (if b < a then Inl ValueError else Inr (rnd_randint R a b g))"

text \<open>
  \<^verbatim>\<open>for i in range(k)\<close>: draw a position, set the bit, and add the position to the set of
  positions of this q-gram (kept only when \<^verbatim>\<open>get_q_gram_pos\<close> is set; the model collects it
  always and drops it at the end).
\<close>

fun set_k_bits ::
  "('g, 'a) random_module \<Rightarrow> int \<Rightarrow> nat \<Rightarrow> bool list \<Rightarrow> int set \<Rightarrow> 'g
     \<Rightarrow> error + (bool list \<times> int set \<times> 'g)"
where
  "set_k_bits R bf_len_m1 0 bf q_gram_pos_set g = Inr (bf, q_gram_pos_set, g)"
| "set_k_bits R bf_len_m1 (Suc i) bf q_gram_pos_set g =
     (case randint R 0 bf_len_m1 g of
        Inl e \<Rightarrow> Inl e
      | Inr (pos_i, g') \<Rightarrow>
          (case bitarray_setitem bf pos_i True of
             Inl e \<Rightarrow> Inl e
           | Inr bf' \<Rightarrow> set_k_bits R bf_len_m1 i bf' (insert pos_i q_gram_pos_set) g'))"

text \<open>
  \<^verbatim>\<open>for q_gram in q_gram_set\<close>: the q-gram set is given as the list of its members in the
  order in which the iteration visits them.  For each q-gram the generator is reseeded
  from the digest of the (salted) q-gram, so the state on entry is overwritten.
\<close>

fun hash_q_grams ::
  "('g, 'a) random_module \<Rightarrow> RandomHashing \<Rightarrow> string option \<Rightarrow> string list \<Rightarrow> bool list
     \<Rightarrow> (string \<times> int set) list \<Rightarrow> 'g \<Rightarrow> error + (bool list \<times> (string \<times> int set) list \<times> 'g)"
where
  "hash_q_grams R rh salt_str [] bf q_gram_pos_dict g = Inr (bf, q_gram_pos_dict, g)"
| "hash_q_grams R rh salt_str (q # rest) bf q_gram_pos_dict g =
     (let q_gram = (case salt_str of None \<Rightarrow> q | Some s \<Rightarrow> q @ s);
          g1 = rnd_seed R (hash_funct rh q_gram)
      in case set_k_bits R (bf_len rh - 1) (nat (num_hash_funct rh)) bf {} g1 of
           Inl e \<Rightarrow> Inl e
         | Inr (bf', q_gram_pos_set, g2) \<Rightarrow>
             hash_q_grams R rh salt_str rest bf'
               (AList.update q_gram q_gram_pos_set q_gram_pos_dict) g2)"

text \<open>
  \<^verbatim>\<open>hash_q_gram_set(q_gram_set, salt_str)\<close>.  \<^verbatim>\<open>bitarray.bitarray(bf_len)\<close> raises
  \<^verbatim>\<open>ValueError\<close> for a negative length; \<^verbatim>\<open>setall(0)\<close> clears the array.  The result is the
  Bloom filter, with the dictionary of positions when \<^verbatim>\<open>get_q_gram_pos\<close> is set.
\<close>

definition hash_q_gram_set ::
  "('g, 'a) random_module \<Rightarrow> RandomHashing \<Rightarrow> string list \<Rightarrow> string option \<Rightarrow> 'g
     \<Rightarrow> error + ((bool list \<times> (string \<times> int set) list option) \<times> 'g)"
where
  "hash_q_gram_set R rh q_gram_set salt_str g =
     (if bf_len rh < 0 then Inl ValueError
      else case hash_q_grams R rh salt_str q_gram_set (replicate (nat (bf_len rh)) False) [] g of
             Inl e \<Rightarrow> Inl e
           | Inr (bf, q_gram_pos_dict, g') \<Rightarrow>
               Inr ((bf, if get_q_gram_pos rh then Some q_gram_pos_dict else None), g'))"

text \<open>\<^verbatim>\<open>bf.count(1)\<close>: the number of bits set.\<close>

definition count_ones :: "bool list \<Rightarrow> nat" where
  "count_ones bf = length (filter (\<lambda>b. b) bf)"

section \<open>simcalc: the Dice similarity of two bit arrays\<close>

text \<open>
  Modelled from the spec: \<^verbatim>\<open>simcalc.bit_array_dice_sim\<close>, which \<^verbatim>\<open>encoder.py\<close> imports and
  calls, is not among the source files.  The specification gives it as
  Dice(A,B) = 2 popcount(A AND B) / (popcount(A) + popcount(B)), and 0 when both popcounts
  are 0, for bit vectors of equal length.  The quotient is a \<open>real\<close>.
\<close>

definition bit_array_dice_sim :: "bool list \<Rightarrow> bool list \<Rightarrow> real" where
  "bit_array_dice_sim a b =
     (if count_ones a + count_ones b = 0 then 0
      else 2 * real (count_ones (map2 (\<and>) a b)) / real (count_ones a + count_ones b))"

section \<open>encoder.py: the linkage engine\<close>

text \<open>
  A record is a dictionary with the optional keys \<^verbatim>\<open>"q_gram_set"\<close>, \<^verbatim>\<open>"og_bf"\<close> and
  \<^verbatim>\<open>"hd_bf"\<close>: a field is \<open>None\<close> while the key is absent.  The dictionaries of records and
  of subsets keep insertion order, and the code iterates over them, so they are association
  lists; a dictionary has each key once.  The result has four counters for each of the two
  similarity variants.
\<close>

record rec_data =
  q_gram_set :: "string list option"
  og_bf :: "bool list option"
  hd_bf :: "bool list option"

type_synonym rec_dict = "(string \<times> rec_data) list"

record outcome_counts =
  one_one_correct :: nat
  one_one_wrong :: nat
  one_n_correct :: nat
  one_n_wrong :: nat

record sim_counts =
  og_bf_dice :: outcome_counts
  blip_bf_dice :: outcome_counts

definition FILTERED_ID_TYPES :: "string list" where
  "FILTERED_ID_TYPES =
     [''f_h'', ''f_l'', ''f_a'', ''q_f'', ''q_r'', ''q_a'', ''l_h'', ''l_s'', ''l_a'',
      ''r1'', ''r2'', ''r3'', ''b'']"

text \<open>\<^verbatim>\<open>dict(l)\<close> and \<^verbatim>\<open>{**a, **b}\<close>: the items are stored one after the other into an empty
  dictionary; storing under a key that is present replaces the value in place.\<close>

definition dict_of_items :: "('k \<times> 'v) list \<Rightarrow> ('k \<times> 'v) list" where
  "dict_of_items l = fold (\<lambda>(k, v). AList.update k v) l []"

definition dict_merge :: "('k \<times> 'v) list \<Rightarrow> ('k \<times> 'v) list \<Rightarrow> ('k \<times> 'v) list" where
  "dict_merge a b = dict_of_items (a @ b)"

text \<open>
  A hardening pass,
  \<^verbatim>\<open>for rec_id, rec_data in d.items(): rec_data["hd_bf"] = hd.harden_bf(rec_data["og_bf"])\<close>,
  with the assertion that the original Bloom filter is there.
\<close>

fun harden_records ::
  "('g, 'a) random_module \<Rightarrow> BLIP \<Rightarrow> rec_dict \<Rightarrow> 'g \<Rightarrow> error + (rec_dict \<times> 'g)"
where
  "harden_records R hdi [] g = Inr ([], g)"
| "harden_records R hdi ((rec_id, rec_data) # rest) g =
     (case og_bf rec_data of
        None \<Rightarrow> Inl (AssertionError ''Original Bloom filter attribute not found for record ID %s'')
      | Some bf \<Rightarrow>
          (case harden_bf R hdi bf g of
             Inl e \<Rightarrow> Inl e
           | Inr (blip_bf, g1) \<Rightarrow>
               (case harden_records R hdi rest g1 of
                  Inl e \<Rightarrow> Inl e
                | Inr (rest', g2) \<Rightarrow> Inr ((rec_id, rec_data\<lparr>hd_bf := Some blip_bf\<rparr>) # rest', g2))))"

text \<open>
  The inner loop over the comparison pool: three assertions on the candidate, then the two
  similarities are stored under the candidate's identifier.  The similarity function is
  the argument \<open>sim\<close>; it returns a number for every pair of filters (all the filters of a
  run come from one encoder and have its length).
\<close>

fun sim_loop ::
  "(bool list \<Rightarrow> bool list \<Rightarrow> real) \<Rightarrow> bool list \<Rightarrow> bool list \<Rightarrow> rec_dict
     \<Rightarrow> (string \<times> real) list \<Rightarrow> (string \<times> real) list
     \<Rightarrow> error + ((string \<times> real) list \<times> (string \<times> real) list)"
where
  "sim_loop sim q_og q_hd [] og_bf_dice_sim blip_bf_dice_sim =
     Inr (og_bf_dice_sim, blip_bf_dice_sim)"
| "sim_loop sim q_og q_hd ((comp_rec_id, comp_rec_data) # rest) og_bf_dice_sim blip_bf_dice_sim =
     (case q_gram_set comp_rec_data of
        None \<Rightarrow> Inl (AssertionError ''Q-gram set attribute not found for record ID %s'')
      | Some qs \<Rightarrow>
     (case og_bf comp_rec_data of
        None \<Rightarrow> Inl (AssertionError ''Original Bloom filter attribute not found for record ID %s'')
      | Some c_og \<Rightarrow>
     (case hd_bf comp_rec_data of
        None \<Rightarrow> Inl (AssertionError ''BLIP Bloom filter attribute not found for record ID %s'')
      | Some c_hd \<Rightarrow>
          sim_loop sim q_og q_hd rest
            (AList.update comp_rec_id (sim q_og c_og) og_bf_dice_sim)
            (AList.update comp_rec_id (sim q_hd c_hd) blip_bf_dice_sim))))"

text \<open>\<^verbatim>\<open>max(sim_data.values())\<close>: \<^verbatim>\<open>ValueError\<close> on an empty dictionary.\<close>

definition max_of_values :: "real list \<Rightarrow> error + real" where
  "max_of_values vs = (case vs of [] \<Rightarrow> Inl ValueError | v # rest \<Rightarrow> Inr (fold max rest v))"

text \<open>
  The classification of one query under one similarity variant: \<^verbatim>\<open>max_keys\<close> are the keys
  whose value equals the maximum, and the two \<^verbatim>\<open>if\<close> statements follow one another.
\<close>

definition count_outcome :: "string \<Rightarrow> (string \<times> real) list \<Rightarrow> outcome_counts \<Rightarrow> error + outcome_counts" where
  "count_outcome rec_id sim_data counts =
     (case max_of_values (map snd sim_data) of
        Inl e \<Rightarrow> Inl e
      | Inr max_value \<Rightarrow>
          (let max_keys = map fst (filter (\<lambda>(k, v). v = max_value) sim_data);
               counts1 =
                 (if length max_keys = 1 then
                    (if max_keys ! 0 = rec_id
                     then counts\<lparr>one_one_correct := one_one_correct counts + 1\<rparr>
                     else counts\<lparr>one_one_wrong := one_one_wrong counts + 1\<rparr>)
                  else counts);
               counts2 =
                 (if length max_keys > 1 then
                    (if rec_id \<in> set max_keys
                     then counts1\<lparr>one_n_correct := one_n_correct counts1 + 1\<rparr>
                     else counts1\<lparr>one_n_wrong := one_n_wrong counts1 + 1\<rparr>)
                  else counts1)
           in Inr counts2))"

text \<open>
  The body of the loop over the subset's records, for one query record.  The lines that
  print the top matches of the first 25 records change neither the counters nor the
  generator, and are left out.
\<close>

definition compare_query ::
  "(bool list \<Rightarrow> bool list \<Rightarrow> real) \<Rightarrow> string \<Rightarrow> rec_data \<Rightarrow> rec_dict \<Rightarrow> sim_counts
     \<Rightarrow> error + sim_counts"
where
  "compare_query sim rec_id rec_data all_records_to_compare res =
     (case q_gram_set rec_data of
        None \<Rightarrow> Inl (AssertionError ''Q-gram set attribute not found for record ID %s'')
      | Some qs \<Rightarrow>
     (case og_bf rec_data of
        None \<Rightarrow> Inl (AssertionError ''Original Bloom filter attribute not found for record ID %s'')
      | Some q_og \<Rightarrow>
     (case hd_bf rec_data of
        None \<Rightarrow> Inl (AssertionError ''BLIP Bloom filter attribute not found for record ID %s'')
      | Some q_hd \<Rightarrow>
     (case sim_loop sim q_og q_hd all_records_to_compare [] [] of
        Inl e \<Rightarrow> Inl e
      | Inr (og_bf_dice_sim, blip_bf_dice_sim) \<Rightarrow>
     (case count_outcome rec_id og_bf_dice_sim (og_bf_dice res) of
        Inl e \<Rightarrow> Inl e
      | Inr og_counts \<Rightarrow>
     (case count_outcome rec_id blip_bf_dice_sim (blip_bf_dice res) of
        Inl e \<Rightarrow> Inl e
      | Inr blip_counts \<Rightarrow>
          Inr \<lparr> og_bf_dice = og_counts, blip_bf_dice = blip_counts \<rparr>))))))"

fun compare_queries ::
  "(bool list \<Rightarrow> bool list \<Rightarrow> real) \<Rightarrow> rec_dict \<Rightarrow> rec_dict \<Rightarrow> sim_counts \<Rightarrow> error + sim_counts"
where
  "compare_queries sim [] all_records_to_compare res = Inr res"
| "compare_queries sim ((rec_id, rec_data) # rest) all_records_to_compare res =
     (case compare_query sim rec_id rec_data all_records_to_compare res of
        Inl e \<Rightarrow> Inl e
      | Inr res' \<Rightarrow> compare_queries sim rest all_records_to_compare res')"

definition pool_size_message :: string where
  "pool_size_message =
     ''!! Total number of records to compare (%d) does not match the expected value''"

definition zero_counts :: outcome_counts where
  "zero_counts = \<lparr> one_one_correct = 0, one_one_wrong = 0, one_n_correct = 0, one_n_wrong = 0 \<rparr>"

text \<open>
  The body of the loop over the subsets, for one subset other than the base pool: the
  label is checked, the pool is merged and shuffled, the subset's own records are hardened
  by a first hardener, the pool by a second one, the sizes are asserted, and the queries
  are compared.  The copies are values here.  Both hardeners are built with the default
  seed argument 42.
\<close>

definition compare_subset ::
  "('g, string \<times> rec_data) random_module \<Rightarrow> (bool list \<Rightarrow> bool list \<Rightarrow> real) \<Rightarrow> string \<Rightarrow> real
     \<Rightarrow> int \<Rightarrow> rec_dict \<Rightarrow> string \<Rightarrow> rec_dict \<Rightarrow> (string \<times> sim_counts) list \<Rightarrow> 'g
     \<Rightarrow> error + ((string \<times> sim_counts) list \<times> 'g)"
where
  "compare_subset R sim blip_sel_method blip_flip_prob base_sample_size base_records
       rec_type rec_type_dict res_dict g =
     (if \<not> (rec_type \<in> set FILTERED_ID_TYPES \<and> rec_type \<notin> fst ` set res_dict) then
        Inl (AssertionError
          ''  !! Record type %s is not in the expected list of types or already processed'')
      else
        let all_merged = dict_merge base_records rec_type_dict;
            (l, g1) = rnd_shuffle R all_merged g;
            all_records_to_compare = dict_of_items l
        in
     (case BLIP_init blip_sel_method blip_flip_prob (Some 42) of
        Inl e \<Rightarrow> Inl e
      | Inr hd_instance1 \<Rightarrow>
     (case harden_records R hd_instance1 rec_type_dict g1 of
        Inl e \<Rightarrow> Inl e
      | Inr (rec_type_dict', g2) \<Rightarrow>
     (case BLIP_init blip_sel_method blip_flip_prob (Some 42) of
        Inl e \<Rightarrow> Inl e
      | Inr hd_instance2 \<Rightarrow>
     (case harden_records R hd_instance2 all_records_to_compare g2 of
        Inl e \<Rightarrow> Inl e
      | Inr (all_records_to_compare', g3) \<Rightarrow>
          if \<not> (int (length all_records_to_compare')
                  = int (length rec_type_dict') + int (length base_records)
                \<and> int (length rec_type_dict') + int (length base_records)
                  = base_sample_size + 1000) then
            Inl (AssertionError pool_size_message)
          else
     (case compare_queries sim rec_type_dict' all_records_to_compare'
             \<lparr> og_bf_dice = zero_counts, blip_bf_dice = zero_counts \<rparr> of
        Inl e \<Rightarrow> Inl e
      | Inr counts \<Rightarrow> Inr (AList.update rec_type counts res_dict, g3)))))))"

text \<open>
  \<^verbatim>\<open>for rec_type, rec_type_dict in data_dict.items()\<close>, skipping the base pool \<^verbatim>\<open>"b"\<close>.
\<close>

fun compare_subsets ::
  "('g, string \<times> rec_data) random_module \<Rightarrow> (bool list \<Rightarrow> bool list \<Rightarrow> real) \<Rightarrow> string \<Rightarrow> real
     \<Rightarrow> int \<Rightarrow> rec_dict \<Rightarrow> (string \<times> rec_dict) list \<Rightarrow> (string \<times> sim_counts) list \<Rightarrow> 'g
     \<Rightarrow> error + ((string \<times> sim_counts) list \<times> 'g)"
where
  "compare_subsets R sim blip_sel_method blip_flip_prob base_sample_size base_records [] res_dict g =
     Inr (res_dict, g)"
| "compare_subsets R sim blip_sel_method blip_flip_prob base_sample_size base_records
       ((rec_type, rec_type_dict) # rest) res_dict g =
     (if rec_type = ''b'' then
        compare_subsets R sim blip_sel_method blip_flip_prob base_sample_size base_records
          rest res_dict g
      else
        (case compare_subset R sim blip_sel_method blip_flip_prob base_sample_size base_records
                rec_type rec_type_dict res_dict g of
           Inl e \<Rightarrow> Inl e
         | Inr (res_dict', g') \<Rightarrow>
             compare_subsets R sim blip_sel_method blip_flip_prob base_sample_size base_records
               rest res_dict' g'))"

text \<open>
  \<^verbatim>\<open>compare_record_pairs(data_dict, blip_sel_method, blip_flip_prob, base_sample_size)\<close>:
  \<^verbatim>\<open>data_dict["b"]\<close> raises \<^verbatim>\<open>KeyError\<close> when there is no base pool.  The function prints
  the table of \<^verbatim>\<open>res_dict\<close>; the model returns it.
\<close>

definition compare_record_pairs ::
  "('g, string \<times> rec_data) random_module \<Rightarrow> (bool list \<Rightarrow> bool list \<Rightarrow> real)
     \<Rightarrow> (string \<times> rec_dict) list \<Rightarrow> string \<Rightarrow> real \<Rightarrow> int \<Rightarrow> 'g
     \<Rightarrow> error + ((string \<times> sim_counts) list \<times> 'g)"
where
  "compare_record_pairs R sim data_dict blip_sel_method blip_flip_prob base_sample_size g =
     (case map_of data_dict ''b'' of
        None \<Rightarrow> Inl KeyError
      | Some base_records \<Rightarrow>
          compare_subsets R sim blip_sel_method blip_flip_prob base_sample_size base_records
            data_dict [] g)"

section \<open>Auxiliary definitions for the statements\<close>

text \<open>The loop as a left-to-right pass over the bits, threading the generator.\<close>

fun harden_bits :: "('g, 'a) random_module \<Rightarrow> BLIP \<Rightarrow> bool list \<Rightarrow> 'g \<Rightarrow> bool list \<times> 'g" where
  "harden_bits R h [] g = ([], g)"
| "harden_bits R h (b # bs) g =
     (let (c, g1) = harden_bit R h b g; (cs, g2) = harden_bits R h bs g1 in (c # cs, g2))"

text \<open>What a caller sees of a result: the value, without the state of the generator.\<close>

definition returned :: "error + ('r \<times> 'g) \<Rightarrow> error + 'r" where
  "returned r = (case r of Inl e \<Rightarrow> Inl e | Inr (v, g) \<Rightarrow> Inr v)"

text \<open>
  The \<open>k\<close> positions that \<^verbatim>\<open>random.randint(0, bf_len_m1)\<close> returns from a given state, and
  the positions of one q-gram: the draws made after seeding with its digest.
\<close>

fun randint_draws :: "('g, 'a) random_module \<Rightarrow> int \<Rightarrow> nat \<Rightarrow> 'g \<Rightarrow> int list" where
  "randint_draws R m 0 g = []"
| "randint_draws R m (Suc i) g =
     fst (rnd_randint R 0 m g) # randint_draws R m i (snd (rnd_randint R 0 m g))"

fun after_randints :: "('g, 'a) random_module \<Rightarrow> int \<Rightarrow> nat \<Rightarrow> 'g \<Rightarrow> 'g" where
  "after_randints R m 0 g = g"
| "after_randints R m (Suc i) g = after_randints R m i (snd (rnd_randint R 0 m g))"

definition q_gram_positions ::
  "('g, 'a) random_module \<Rightarrow> RandomHashing \<Rightarrow> string option \<Rightarrow> string \<Rightarrow> int set"
where
  "q_gram_positions R rh salt_str q =
     set (randint_draws R (bf_len rh - 1) (nat (num_hash_funct rh))
            (rnd_seed R (hash_funct rh (case salt_str of None \<Rightarrow> q | Some s \<Rightarrow> q @ s))))"

text \<open>
  The classification as the specification words it.  The maximal candidates of a table of
  similarities are all the identifiers whose similarity no other entry exceeds (ties are
  kept); the outcome of a query \<open>q\<close> is decided by the number of maximal candidates and by
  whether \<open>q\<close> is one of them; and an outcome is credited to one of the four counters.
\<close>

datatype outcome = One_one_correct | One_one_wrong | One_n_correct | One_n_wrong

definition maximal_candidates :: "(string \<times> real) list \<Rightarrow> string set" where
  "maximal_candidates sims = {k. \<exists>v. (k, v) \<in> set sims \<and> (\<forall>(k', v') \<in> set sims. v' \<le> v)}"

definition spec_outcome :: "string \<Rightarrow> string set \<Rightarrow> outcome option" where
  "spec_outcome q M =
     (if M = {q} then Some One_one_correct
      else if card M = 1 then Some One_one_wrong
      else if 1 < card M \<and> q \<in> M then Some One_n_correct
      else if 1 < card M \<and> q \<notin> M then Some One_n_wrong
      else None)"

fun credit :: "outcome \<Rightarrow> outcome_counts \<Rightarrow> outcome_counts" where
  "credit One_one_correct c = c\<lparr>one_one_correct := one_one_correct c + 1\<rparr>"
| "credit One_one_wrong c = c\<lparr>one_one_wrong := one_one_wrong c + 1\<rparr>"
| "credit One_n_correct c = c\<lparr>one_n_correct := one_n_correct c + 1\<rparr>"
| "credit One_n_wrong c = c\<lparr>one_n_wrong := one_n_wrong c + 1\<rparr>"

text \<open>
  The similarities of a query against every candidate of the pool, for the vectors stored
  under one attribute (\<open>og_bf\<close> or \<open>hd_bf\<close>), and the sum of the four counters.
\<close>

definition similarities ::
  "(bool list \<Rightarrow> bool list \<Rightarrow> real) \<Rightarrow> (rec_data \<Rightarrow> bool list option) \<Rightarrow> rec_data \<Rightarrow> rec_dict
     \<Rightarrow> (string \<times> real) list"
where
  "similarities sim attr q pool = map (\<lambda>(cid, c). (cid, sim (the (attr q)) (the (attr c)))) pool"

definition has_all_attributes :: "rec_data \<Rightarrow> bool" where
  "has_all_attributes r \<longleftrightarrow> q_gram_set r \<noteq> None \<and> og_bf r \<noteq> None \<and> hd_bf r \<noteq> None"

definition total_count :: "outcome_counts \<Rightarrow> nat" where
  "total_count c = one_one_correct c + one_one_wrong c + one_n_correct c + one_n_wrong c"

text \<open>A record as \<^verbatim>\<open>encode_bfs\<close> leaves it: the q-gram set and the original Bloom filter.\<close>

definition encoded_rec :: "string list \<Rightarrow> bool list \<Rightarrow> rec_data" where
  "encoded_rec qs bf = \<lparr> q_gram_set = Some qs, og_bf = Some bf, hd_bf = None \<rparr>"

section \<open>Properties of the hardener\<close>

lemma harden_loop_suffix:
  "length out = length pre + length bs \<Longrightarrow>
   harden_loop R h (pre @ bs) [length pre..<length pre + length bs] out g =
     (take (length pre) out @ fst (harden_bits R h bs g), snd (harden_bits R h bs g))"
proof (induction bs arbitrary: pre out g)
  case Nil
  then show ?case by simp
next
  case (Cons b bs)
  obtain c g1 where step: "harden_bit R h b g = (c, g1)"
    by (cases "harden_bit R h b g")
  have range: "[length pre..<length pre + length (b # bs)] =
      length pre # [length (pre @ [b])..<length (pre @ [b]) + length bs]"
    using upt_conv_Cons [of "length pre" "length pre + length (b # bs)"] by simp
  have len: "length (out[length pre := c]) = length (pre @ [b]) + length bs"
    using Cons.prems by simp
  have ih: "harden_loop R h ((pre @ [b]) @ bs)
       [length (pre @ [b])..<length (pre @ [b]) + length bs] (out[length pre := c]) g1 =
     (take (length (pre @ [b])) (out[length pre := c]) @ fst (harden_bits R h bs g1),
      snd (harden_bits R h bs g1))"
    by (rule Cons.IH [OF len])
  have tk: "take (length (pre @ [b])) (out[length pre := c]) = take (length pre) out @ [c]"
    using Cons.prems by (simp add: take_Suc_conv_app_nth)
  have "harden_loop R h (pre @ b # bs) [length pre..<length pre + length (b # bs)] out g =
      harden_loop R h ((pre @ [b]) @ bs)
        [length (pre @ [b])..<length (pre @ [b]) + length bs] (out[length pre := c]) g1"
    unfolding range by (simp add: step)
  also have "\<dots> = (take (length pre) out @ c # fst (harden_bits R h bs g1),
      snd (harden_bits R h bs g1))"
    unfolding ih tk by simp
  finally have run: "harden_loop R h (pre @ b # bs) [length pre..<length pre + length (b # bs)] out g =
      (take (length pre) out @ c # fst (harden_bits R h bs g1), snd (harden_bits R h bs g1))" .
  have bits: "harden_bits R h (b # bs) g =
      (c # fst (harden_bits R h bs g1), snd (harden_bits R h bs g1))"
    by (simp add: step case_prod_unfold Let_def)
  show ?case
    unfolding run bits by simp
qed

lemma harden_loop_init:
  "length out = length bf \<Longrightarrow> harden_loop R h bf [0..<length bf] out g = harden_bits R h bf g"
  using harden_loop_suffix [of out "[]" bf R h g] by simp

lemma length_harden_bits: "length (fst (harden_bits R h bf g)) = length bf"
  by (induction bf arbitrary: g) (simp_all add: case_prod_unfold Let_def)

lemma harden_bf_bits: "harden_bf R h bf g = Inr (harden_bits R h bf g)"
  using length_harden_bits [of R h bf g]
  by (simp add: harden_bf_def harden_loop_init case_prod_unfold Let_def)

lemma harden_bit_config:
  "sel_method h' = sel_method h \<Longrightarrow> blip_prob h' = blip_prob h \<Longrightarrow>
   harden_bit R h' b g = harden_bit R h b g"
  by (simp add: harden_bit_def split: prod.splits)

lemma harden_bits_config:
  "sel_method h' = sel_method h \<Longrightarrow> blip_prob h' = blip_prob h \<Longrightarrow>
   harden_bits R h' bf g = harden_bits R h bf g"
proof (induction bf arbitrary: g)
  case Nil
  show ?case by simp
next
  case (Cons b bs)
  have "harden_bit R h' b g = harden_bit R h b g"
    using Cons.prems by (rule harden_bit_config)
  then show ?case
    using Cons by simp
qed

lemma harden_bits_unselected:
  "\<forall>u \<in> set (random_draws R (length bf) g). blip_prob h < u \<Longrightarrow>
   harden_bits R h bf g = (bf, after_draws R (length bf) g)"
  by (induction bf arbitrary: g) (simp_all add: harden_bit_def case_prod_unfold Let_def)

lemma harden_bits_ala_selected:
  "sel_method h = ''ala'' \<Longrightarrow> \<forall>u \<in> set (random_draws R (length bf) g). u \<le> blip_prob h \<Longrightarrow>
   harden_bits R h bf g = (map Not bf, after_draws R (length bf) g)"
  by (induction bf arbitrary: g) (simp_all add: harden_bit_def case_prod_unfold Let_def)

lemma random_draws_range:
  "random_in_unit_interval R \<Longrightarrow> u \<in> set (random_draws R n g) \<Longrightarrow> 0 \<le> u \<and> u < 1"
  by (induction n arbitrary: g) (auto simp: random_in_unit_interval_def)

lemma counter_gen_unit_interval: "random_in_unit_interval (counter_gen :: (nat, 'a) random_module)"
proof -
  have "real (g mod 4) < 4" for g :: nat
  proof -
    have "g mod 4 < 4" by simp
    then show ?thesis by linarith
  qed
  then show ?thesis
    by (simp add: random_in_unit_interval_def counter_gen_def)
qed

text \<open>
  Claim C1 asks that each hardening pass draw from a generator owned by its hardener, so
  that the output of \<^verbatim>\<open>harden_bf\<close> on one pool does not depend on the passes before it.
  The code does not do so: the constructor stores \<^verbatim>\<open>random_seed\<close>, which its docstring calls
  the value used to seed the random generator, and seeds nothing, and \<^verbatim>\<open>harden_bf\<close> draws
  from the module-level generator.  Two hardeners are built with method \<^verbatim>\<open>'ala'\<close>,
  probability 1/8 and the default seed 42.  The pass of the first over the one-bit pool
  \<open>[0]\<close>, started in state 0 of the counter generator, returns \<open>[1]\<close> and leaves state 1;
  the pass of the second over the same pool, started in state 1, that is after the first
  pass, returns \<open>[0]\<close>.
\<close>

theorem harden_bf_depends_on_earlier_pass:
  "(case BLIP_init ''ala'' (1 / 8) (Some 42) of
      Inl e \<Rightarrow> Inl e
    | Inr hd_instance1 \<Rightarrow>
        harden_bf (counter_gen :: (nat, unit) random_module) hd_instance1 [False] 0)
     = Inr ([True], 1)
   \<and> (case BLIP_init ''ala'' (1 / 8) (Some 42) of
      Inl e \<Rightarrow> Inl e
    | Inr hd_instance2 \<Rightarrow>
        harden_bf (counter_gen :: (nat, unit) random_module) hd_instance2 [False] 1)
     = Inr ([False], 2)"
  by (simp add: BLIP_init_def harden_bf_def harden_bit_def counter_gen_def)

text \<open>
  Claim C4, as stated, fails.  With the balanced-flip method and probability 0, a draw
  that is exactly 0 passes the test \<^verbatim>\<open>rand <= self.blip_prob\<close>, and the bit is replaced by
  the coin flip: from state 0 of the counter generator the first draw is 0 and the flip
  is 1, so the filter with the single bit 0 comes back with the bit 1.
\<close>
theorem harden_bf_sch_zero_counterexample:
  "harden_bf (counter_gen :: (nat, unit) random_module)
     \<lparr> blip_type = ''BLP'', sel_method = ''sch'', random_seed = Some 42, blip_prob = 0 \<rparr>
     [False] 0 = Inr ([True], 2)"
  by (simp add: harden_bf_def harden_bit_def counter_gen_def)

text \<open>
  Claim C4, amended.  With the balanced-flip method (\<^verbatim>\<open>'sch'\<close>) and flip probability 0,
  \<^verbatim>\<open>harden_bf(bf)\<close> equals \<open>bf\<close> for every input bit vector and every state of the random
  source from which none of the \<open>len(bf)\<close> draws of \<^verbatim>\<open>random.random()\<close> is exactly 0; the
  generator is then advanced by exactly these draws.
\<close>
theorem harden_bf_sch_zero_prob:
  assumes "random_in_unit_interval R" and "BLIP_init ''sch'' 0 seed = Inr h"
    and "0 \<notin> set (random_draws R (length bf) g)"
  shows "harden_bf R h bf g = Inr (bf, after_draws R (length bf) g)"
proof -
  have p: "blip_prob h = 0"
    using assms(2) by (auto simp: BLIP_init_def)
  have "\<forall>u \<in> set (random_draws R (length bf) g). blip_prob h < u"
  proof
    fix u assume u: "u \<in> set (random_draws R (length bf) g)"
    then have "0 \<le> u" using random_draws_range [OF assms(1)] by blast
    moreover have "u \<noteq> 0" using u assms(3) by auto
    ultimately show "blip_prob h < u" using p by simp
  qed
  then show ?thesis
    by (simp add: harden_bf_bits harden_bits_unselected)
qed

text \<open>The amended claim C4 at a three-bit filter, from state 1 of the counter generator.\<close>
theorem harden_bf_sch_zero_prob_witness:
  "harden_bf (counter_gen :: (nat, unit) random_module)
     \<lparr> blip_type = ''BLP'', sel_method = ''sch'', random_seed = Some 42, blip_prob = 0 \<rparr>
     [True, False, True] 1 = Inr ([True, False, True], 4)"
proof -
  have a: "random_in_unit_interval (counter_gen :: (nat, unit) random_module)"
    by (rule counter_gen_unit_interval)
  have b: "BLIP_init ''sch'' 0 (Some 42) =
      Inr \<lparr> blip_type = ''BLP'', sel_method = ''sch'', random_seed = Some 42, blip_prob = 0 \<rparr>"
    by (simp add: BLIP_init_def)
  have c: "0 \<notin> set (random_draws (counter_gen :: (nat, unit) random_module)
      (length [True, False, True]) 1)"
    by (simp add: counter_gen_def)
  show ?thesis
    using harden_bf_sch_zero_prob [OF a b c] by (simp add: counter_gen_def)
qed

text \<open>
  Claim C5.  With the independent-flip method (\<^verbatim>\<open>'ala'\<close>) and flip probability 1,
  \<^verbatim>\<open>harden_bf(bf)\<close> is the bitwise complement of \<open>bf\<close>, for every input bit vector and every
  state of the generator: every draw of \<^verbatim>\<open>random.random()\<close> is below 1, so every position
  is selected.  The generator is advanced by \<open>len(bf)\<close> draws.
\<close>
theorem harden_bf_ala_prob_one:
  assumes "random_in_unit_interval R" and "BLIP_init ''ala'' 1 seed = Inr h"
  shows "harden_bf R h bf g = Inr (map Not bf, after_draws R (length bf) g)"
proof -
  have h: "sel_method h = ''ala''" "blip_prob h = 1"
    using assms(2) by (auto simp: BLIP_init_def)
  have "\<forall>u \<in> set (random_draws R (length bf) g). u \<le> blip_prob h"
    using random_draws_range [OF assms(1)] h(2) by fastforce
  then show ?thesis
    by (simp add: harden_bf_bits harden_bits_ala_selected h(1))
qed

text \<open>Claim C5 at a two-bit filter, from state 0 of the counter generator.\<close>
theorem harden_bf_ala_prob_one_witness:
  "harden_bf (counter_gen :: (nat, unit) random_module)
     \<lparr> blip_type = ''BLP'', sel_method = ''ala'', random_seed = Some 42, blip_prob = 1 \<rparr>
     [True, False] 0 = Inr ([False, True], 2)"
proof -
  have a: "random_in_unit_interval (counter_gen :: (nat, unit) random_module)"
    by (rule counter_gen_unit_interval)
  have b: "BLIP_init ''ala'' 1 (Some 42) =
      Inr \<lparr> blip_type = ''BLP'', sel_method = ''ala'', random_seed = Some 42, blip_prob = 1 \<rparr>"
    by (simp add: BLIP_init_def)
  show ?thesis
    using harden_bf_ala_prob_one [OF a b, of "[True, False]" 0] by (simp add: counter_gen_def)
qed

text \<open>
  Claim C10.  The constructor argument \<^verbatim>\<open>random_seed\<close> has no effect: constructing a
  hardener with one seed or another and hardening a filter gives the same result (the same
  exception, or the same bits and the same final state of the ambient generator), for every
  selection method, probability, input and generator state; and changing the stored seed
  of a hardener does not change what \<^verbatim>\<open>harden_bf\<close> returns.
\<close>
theorem random_seed_has_no_effect:
  "(case BLIP_init sel p s1 of Inl e \<Rightarrow> Inl e | Inr h \<Rightarrow> harden_bf R h bf g) =
   (case BLIP_init sel p s2 of Inl e \<Rightarrow> Inl e | Inr h \<Rightarrow> harden_bf R h bf g)
   \<and> harden_bf R (h\<lparr>random_seed := s\<rparr>) bf g = harden_bf R h bf g"
proof -
  have upd: "harden_bits R (h\<lparr>random_seed := s\<rparr>) bf g = harden_bits R h bf g"
    by (rule harden_bits_config) simp_all
  have mk: "harden_bits R \<lparr> blip_type = t, sel_method = m, random_seed = s1, blip_prob = p \<rparr> bf g =
      harden_bits R \<lparr> blip_type = t, sel_method = m, random_seed = s2, blip_prob = p \<rparr> bf g" for t m
    by (rule harden_bits_config) simp_all
  show ?thesis
    by (simp add: BLIP_init_def harden_bf_bits upd mk)
qed

section \<open>Properties of the encoder\<close>

lemma set_k_bits_in_range:
  assumes "0 \<le> m"
    and "\<forall>p \<in> set (randint_draws R m k g). 0 \<le> p \<and> p < int (length bf)"
  shows "\<exists>bf'. set_k_bits R m k bf ps g =
            Inr (bf', ps \<union> set (randint_draws R m k g), after_randints R m k g)
          \<and> length bf' = length bf
          \<and> (\<forall>i < length bf. bf' ! i = (bf ! i \<or> int i \<in> set (randint_draws R m k g)))"
  using assms(2)
proof (induction k arbitrary: bf ps g)
  case 0
  then show ?case by simp
next
  case (Suc k)
  obtain p g1 where draw: "rnd_randint R 0 m g = (p, g1)"
    by (cases "rnd_randint R 0 m g")
  have p: "0 \<le> p" "p < int (length bf)"
    using Suc.prems draw by simp_all
  have rest: "\<forall>q \<in> set (randint_draws R m k g1). 0 \<le> q \<and> q < int (length (bf[nat p := True]))"
    using Suc.prems draw by simp
  obtain bf' where ih:
    "set_k_bits R m k (bf[nat p := True]) (insert p ps) g1 =
       Inr (bf', insert p ps \<union> set (randint_draws R m k g1), after_randints R m k g1)"
    "length bf' = length (bf[nat p := True])"
    "\<forall>i < length (bf[nat p := True]).
       bf' ! i = ((bf[nat p := True]) ! i \<or> int i \<in> set (randint_draws R m k g1))"
    using Suc.IH [OF rest, of "insert p ps"] by blast
  have step: "set_k_bits R m (Suc k) bf ps g =
      set_k_bits R m k (bf[nat p := True]) (insert p ps) g1"
    using p assms(1) by (simp add: draw randint_def bitarray_setitem_def)
  have bits: "\<forall>i < length bf. bf' ! i = (bf ! i \<or> int i \<in> set (randint_draws R m (Suc k) g))"
  proof (intro allI impI)
    fix i assume i: "i < length bf"
    have "(bf[nat p := True]) ! i = (bf ! i \<or> int i = p)"
      using i p by (cases "i = nat p") auto
    then show "bf' ! i = (bf ! i \<or> int i \<in> set (randint_draws R m (Suc k) g))"
      using ih(3) i by (auto simp: draw)
  qed
  show ?case
    unfolding step ih(1) using ih(2) bits by (auto simp: draw)
qed

lemma randint_draws_range:
  "randint_in_range R \<Longrightarrow> 0 \<le> m \<Longrightarrow> p \<in> set (randint_draws R m k g) \<Longrightarrow> 0 \<le> p \<and> p \<le> m"
  by (induction k arbitrary: g) (auto simp: randint_in_range_def)

lemma hash_q_grams_bits:
  assumes "randint_in_range R" and "1 < bf_len rh" and "length bf = nat (bf_len rh)"
  shows "\<exists>bf' d' g'. hash_q_grams R rh salt_str qs bf d g = Inr (bf', d', g')
          \<and> length bf' = length bf
          \<and> (\<forall>i < length bf.
                bf' ! i = (bf ! i \<or> int i \<in> (\<Union>q \<in> set qs. q_gram_positions R rh salt_str q)))"
  using assms(3)
proof (induction qs arbitrary: bf d g)
  case Nil
  then show ?case by simp
next
  case (Cons q qs)
  define q_gram where "q_gram = (case salt_str of None \<Rightarrow> q | Some s \<Rightarrow> q @ s)"
  define g1 where "g1 = rnd_seed R (hash_funct rh q_gram)"
  define k where "k = nat (num_hash_funct rh)"
  have pos: "q_gram_positions R rh salt_str q = set (randint_draws R (bf_len rh - 1) k g1)"
    by (simp add: q_gram_positions_def q_gram_def g1_def k_def)
  have "\<forall>p \<in> set (randint_draws R (bf_len rh - 1) k g1). 0 \<le> p \<and> p < int (length bf)"
  proof
    fix p assume "p \<in> set (randint_draws R (bf_len rh - 1) k g1)"
    then have "0 \<le> p \<and> p \<le> bf_len rh - 1"
      using randint_draws_range [OF assms(1), of "bf_len rh - 1" p k g1] assms(2) by simp
    then show "0 \<le> p \<and> p < int (length bf)"
      using Cons.prems assms(2) by simp
  qed
  moreover have "0 \<le> bf_len rh - 1"
    using assms(2) by simp
  ultimately have "\<exists>bf'. set_k_bits R (bf_len rh - 1) k bf {} g1 =
        Inr (bf', {} \<union> set (randint_draws R (bf_len rh - 1) k g1),
             after_randints R (bf_len rh - 1) k g1)
      \<and> length bf' = length bf
      \<and> (\<forall>i < length bf.
            bf' ! i = (bf ! i \<or> int i \<in> set (randint_draws R (bf_len rh - 1) k g1)))"
    using set_k_bits_in_range [of "bf_len rh - 1" R k g1 bf "{}"] by blast
  then
  obtain bf1 where one:
    "set_k_bits R (bf_len rh - 1) k bf {} g1 =
       Inr (bf1, {} \<union> set (randint_draws R (bf_len rh - 1) k g1),
            after_randints R (bf_len rh - 1) k g1)"
    "length bf1 = length bf"
    "\<forall>i < length bf. bf1 ! i = (bf ! i \<or> int i \<in> set (randint_draws R (bf_len rh - 1) k g1))"
    by blast
  have len1: "length bf1 = nat (bf_len rh)"
    using one(2) Cons.prems by simp
  from Cons.IH [OF len1]
  obtain bf' d' g' where two:
    "hash_q_grams R rh salt_str qs bf1
       (AList.update q_gram (set (randint_draws R (bf_len rh - 1) k g1)) d)
       (after_randints R (bf_len rh - 1) k g1) = Inr (bf', d', g')"
    "length bf' = length bf1"
    "\<forall>i < length bf1.
       bf' ! i = (bf1 ! i \<or> int i \<in> (\<Union>q \<in> set qs. q_gram_positions R rh salt_str q))"
    by blast
  have run: "hash_q_grams R rh salt_str (q # qs) bf d g = Inr (bf', d', g')"
    using one(1) two(1) by (simp add: q_gram_def g1_def k_def Let_def)
  have "\<forall>i < length bf.
      bf' ! i = (bf ! i \<or> int i \<in> (\<Union>q \<in> set (q # qs). q_gram_positions R rh salt_str q))"
    using one(2,3) two(3) pos by auto
  then show ?case
    using run two(2) one(2) by simp
qed

lemma hash_q_gram_set_bits:
  assumes "randint_in_range R" and "1 < bf_len rh"
  shows "\<exists>d g'. hash_q_gram_set R rh qs salt_str g =
      Inr ((map (\<lambda>i. int i \<in> (\<Union>q \<in> set qs. q_gram_positions R rh salt_str q))
              [0..<nat (bf_len rh)], d), g')"
proof -
  have len: "length (replicate (nat (bf_len rh)) False) = nat (bf_len rh)"
    by simp
  from hash_q_grams_bits [OF assms len, of salt_str qs "[]" g]
  obtain bf' d' g' where run:
    "hash_q_grams R rh salt_str qs (replicate (nat (bf_len rh)) False) [] g = Inr (bf', d', g')"
    "length bf' = nat (bf_len rh)"
    "\<forall>i < nat (bf_len rh).
       bf' ! i = (int i \<in> (\<Union>q \<in> set qs. q_gram_positions R rh salt_str q))"
    by auto
  have "bf' = map (\<lambda>i. int i \<in> (\<Union>q \<in> set qs. q_gram_positions R rh salt_str q))
      [0..<nat (bf_len rh)]"
    using run(2,3) by (intro nth_equalityI) simp_all
  then show ?thesis
    using run(1) assms(2) by (simp add: hash_q_gram_set_def)
qed

lemma count_ones_members:
  assumes "finite P"
  shows "count_ones (map (\<lambda>i. int i \<in> P) [0..<n]) \<le> card P"
proof -
  have "count_ones (map (\<lambda>i. int i \<in> P) [0..<n]) = length (filter (\<lambda>i. int i \<in> P) [0..<n])"
    by (simp add: count_ones_def filter_map comp_def)
  also have "\<dots> = card (set (filter (\<lambda>i. int i \<in> P) [0..<n]))"
    by (rule distinct_card [symmetric]) simp
  also have "\<dots> = card (int ` set (filter (\<lambda>i. int i \<in> P) [0..<n]))"
    by (simp add: card_image)
  also have "\<dots> \<le> card P"
    by (rule card_mono [OF assms]) auto
  finally show ?thesis .
qed

lemma card_q_gram_positions:
  "card (q_gram_positions R rh salt_str q) \<le> nat (num_hash_funct rh)"
proof -
  have len: "length (randint_draws R m k g) = k" for m k g
    by (induction k arbitrary: g) simp_all
  show ?thesis
    unfolding q_gram_positions_def using card_length [of "randint_draws R (bf_len rh - 1)
      (nat (num_hash_funct rh))
      (rnd_seed R (hash_funct rh (case salt_str of None \<Rightarrow> q | Some s \<Rightarrow> q @ s)))"]
    by (simp add: len)
qed

lemma card_all_positions:
  "card (\<Union>q \<in> set qs. q_gram_positions R rh salt_str q) \<le> card (set qs) * nat (num_hash_funct rh)"
proof -
  have "card (\<Union>q \<in> set qs. q_gram_positions R rh salt_str q)
      \<le> (\<Sum>q \<in> set qs. card (q_gram_positions R rh salt_str q))"
    by (rule card_UN_le) simp
  also have "\<dots> \<le> (\<Sum>q \<in> set qs. nat (num_hash_funct rh))"
    by (rule sum_mono) (rule card_q_gram_positions)
  finally show ?thesis by simp
qed

lemma hash_q_grams_reseeds:
  "returned (case hash_q_grams R rh salt_str qs bf d g1 of Inl e \<Rightarrow> Inl e
              | Inr (bf', d', g') \<Rightarrow> Inr ((bf', d'), g')) =
   returned (case hash_q_grams R rh salt_str qs bf d g2 of Inl e \<Rightarrow> Inl e
              | Inr (bf', d', g') \<Rightarrow> Inr ((bf', d'), g'))"
  by (cases qs) (simp_all add: returned_def)

lemma counter_gen_randint_in_range: "randint_in_range (counter_gen :: (nat, 'a) random_module)"
proof -
  have "a \<le> a + int g mod (b - a + 1) \<and> a + int g mod (b - a + 1) \<le> b"
    if "a \<le> b" for a b :: int and g :: nat
  proof -
    have pos: "0 < b - a + 1" using that by simp
    have "0 \<le> int g mod (b - a + 1)"
      by (rule pos_mod_sign [OF pos])
    moreover have "int g mod (b - a + 1) < b - a + 1"
      by (rule pos_mod_bound [OF pos])
    ultimately show ?thesis by linarith
  qed
  then show ?thesis
    by (simp add: randint_in_range_def counter_gen_def)
qed

text \<open>
  Claim C6.  Encoding is deterministic: two calls of \<^verbatim>\<open>hash_q_gram_set\<close> with the same
  configuration, q-gram set and salt return the same value (the same bit vector, and the
  same dictionary of positions), whatever the states of the module-level generator at the
  two calls, that is whatever was computed in between: the generator is reseeded for each
  q-gram before any position is drawn.
\<close>
theorem hash_q_gram_set_deterministic:
  "returned (hash_q_gram_set R rh qs salt_str g1) =
   returned (hash_q_gram_set R rh qs salt_str g2)"
proof (cases qs)
  case Nil
  then show ?thesis
    by (simp add: hash_q_gram_set_def returned_def)
next
  case (Cons q rest)
  have "hash_q_grams R rh salt_str (q # rest) bf d g1 =
      hash_q_grams R rh salt_str (q # rest) bf d g2" for bf d
    by simp
  then show ?thesis
    unfolding Cons hash_q_gram_set_def by (simp only:)
qed

text \<open>
  Claim C7.  For every q-gram set \<open>Q\<close>, the number of 1-bits of \<^verbatim>\<open>hash_q_gram_set(Q)\<close> is at
  most \<open>|Q| k\<close>, and the bit vector does not depend on the order in which \<open>Q\<close> is iterated:
  every list with the same members gives the same bit vector, from any generator state.
  The hasher is one the constructor accepts, and \<^verbatim>\<open>randint(a, b)\<close> returns a value in
  \<open>[a, b]\<close>.
\<close>
theorem hash_q_gram_set_popcount_order:
  assumes "randint_in_range R" and "RandomHashing_init hf len k gp = Inr rh"
  shows "\<exists>bf d g'. hash_q_gram_set R rh qs salt_str g = Inr ((bf, d), g')
      \<and> count_ones bf \<le> card (set qs) * nat k
      \<and> (\<forall>qs' g2. set qs' = set qs \<longrightarrow>
            (\<exists>d' g''. hash_q_gram_set R rh qs' salt_str g2 = Inr ((bf, d'), g'')))"
proof -
  have rh: "1 < bf_len rh" "num_hash_funct rh = k"
    using assms(2) by (auto simp: RandomHashing_init_def split: if_splits)
  define P where "P = (\<Union>q \<in> set qs. q_gram_positions R rh salt_str q)"
  define bf where "bf = map (\<lambda>i. int i \<in> P) [0..<nat (bf_len rh)]"
  obtain d g' where run: "hash_q_gram_set R rh qs salt_str g = Inr ((bf, d), g')"
    using hash_q_gram_set_bits [OF assms(1) rh(1), of qs salt_str g] unfolding bf_def P_def
    by blast
  have "finite P"
    unfolding P_def q_gram_positions_def by simp
  then have "count_ones bf \<le> card P"
    unfolding bf_def by (rule count_ones_members)
  also have "\<dots> \<le> card (set qs) * nat k"
    unfolding P_def using card_all_positions [of R rh salt_str qs] rh(2) by simp
  finally have pop: "count_ones bf \<le> card (set qs) * nat k" .
  have order: "\<exists>d' g''. hash_q_gram_set R rh qs' salt_str g2 = Inr ((bf, d'), g'')"
    if "set qs' = set qs" for qs' g2
    using hash_q_gram_set_bits [OF assms(1) rh(1), of qs' salt_str g2] that
    unfolding bf_def P_def by simp
  show ?thesis
    using run pop order by blast
qed

text \<open>Claim C7 for the q-grams \<open>a\<close> and \<open>bc\<close>, filter length 4 and two hash functions.\<close>
theorem hash_q_gram_set_popcount_order_witness:
  "\<exists>bf d g'. hash_q_gram_set (counter_gen :: (nat, unit) random_module)
        \<lparr> hash_funct = length, bf_len = 4, num_hash_funct = 2, get_q_gram_pos = False \<rparr>
        [''a'', ''bc''] None 0 = Inr ((bf, d), g')
      \<and> count_ones bf \<le> card (set [''a'', ''bc'']) * nat 2
      \<and> (\<forall>qs' g2. set qs' = set [''a'', ''bc''] \<longrightarrow>
            (\<exists>d' g''. hash_q_gram_set (counter_gen :: (nat, unit) random_module)
               \<lparr> hash_funct = length, bf_len = 4, num_hash_funct = 2, get_q_gram_pos = False \<rparr>
               qs' None g2 = Inr ((bf, d'), g'')))"
proof -
  have a: "randint_in_range (counter_gen :: (nat, unit) random_module)"
    by (rule counter_gen_randint_in_range)
  have b: "RandomHashing_init length 4 2 False =
      Inr \<lparr> hash_funct = length, bf_len = 4, num_hash_funct = 2, get_q_gram_pos = False \<rparr>"
    by (simp add: RandomHashing_init_def)
  show ?thesis
    by (rule hash_q_gram_set_popcount_order [OF a b])
qed

section \<open>Properties of the Dice similarity\<close>

lemma count_ones_and_le:
  "count_ones (map2 (\<and>) a b) \<le> count_ones a \<and> count_ones (map2 (\<and>) a b) \<le> count_ones b"
proof (induction a arbitrary: b)
  case Nil
  show ?case by (simp add: count_ones_def)
next
  case (Cons x xs)
  show ?case
  proof (cases b)
    case Nil
    then show ?thesis by (simp add: count_ones_def)
  next
    case (Cons y ys)
    then show ?thesis
      using Cons.IH [of ys] by (auto simp: count_ones_def)
  qed
qed

lemma count_ones_and_self: "count_ones (map2 (\<and>) a a) = count_ones a"
  by (induction a) (simp_all add: count_ones_def)

text \<open>
  Claim C8.  For bit vectors \<open>A\<close> and \<open>B\<close> of equal length, the Dice similarity equals
  2 popcount(A AND B) / (popcount(A) + popcount(B)) when that sum is not 0 and is 0 when
  both popcounts are 0; it lies in [0, 1]; and Dice(A, A) = 1 when popcount(A) > 0.
\<close>
theorem bit_array_dice_sim_properties:
  assumes "length a = length b"
  shows "(count_ones a + count_ones b \<noteq> 0 \<longrightarrow>
            bit_array_dice_sim a b =
              2 * real (count_ones (map2 (\<and>) a b)) / real (count_ones a + count_ones b))
       \<and> (count_ones a = 0 \<and> count_ones b = 0 \<longrightarrow> bit_array_dice_sim a b = 0)
       \<and> 0 \<le> bit_array_dice_sim a b \<and> bit_array_dice_sim a b \<le> 1
       \<and> (0 < count_ones a \<longrightarrow> bit_array_dice_sim a a = 1)"
proof -
  have le: "2 * count_ones (map2 (\<and>) a b) \<le> count_ones a + count_ones b"
    using count_ones_and_le [of a b] by linarith
  have upper: "bit_array_dice_sim a b \<le> 1"
  proof (cases "count_ones a + count_ones b = 0")
    case True
    then show ?thesis by (simp add: bit_array_dice_sim_def)
  next
    case False
    have num: "2 * real (count_ones (map2 (\<and>) a b)) \<le> real (count_ones a + count_ones b)"
      using le by (metis of_nat_le_iff of_nat_mult of_nat_numeral)
    have "0 < count_ones a + count_ones b"
      using False by simp
    then have pos: "0 < real (count_ones a + count_ones b)"
      by (simp only: of_nat_0_less_iff)
    have quot: "2 * real (count_ones (map2 (\<and>) a b)) / real (count_ones a + count_ones b) \<le> 1"
      using num divide_le_eq_1_pos [OF pos] by blast
    have "bit_array_dice_sim a b =
        2 * real (count_ones (map2 (\<and>) a b)) / real (count_ones a + count_ones b)"
      using False by (simp only: bit_array_dice_sim_def if_False)
    then show ?thesis
      using quot by (simp only:)
  qed
  have lower: "0 \<le> bit_array_dice_sim a b"
    by (simp add: bit_array_dice_sim_def)
  have self: "bit_array_dice_sim a a = 1" if "0 < count_ones a"
    using that by (simp add: bit_array_dice_sim_def count_ones_and_self)
  show ?thesis
    using upper lower self by (simp add: bit_array_dice_sim_def)
qed

text \<open>Claim C8 at two-bit vectors: similarity 2/3, the all-zero pair, and a vector with itself.\<close>
theorem bit_array_dice_sim_properties_witness:
  "bit_array_dice_sim [True, False] [True, True] = 2 / 3
   \<and> bit_array_dice_sim [False, False] [False, False] = 0
   \<and> bit_array_dice_sim [True, False] [True, False] = 1"
proof -
  have len: "length [True, False] = length [True, True]" by simp
  have "count_ones [True, False] + count_ones [True, True] \<noteq> 0"
    by (simp add: count_ones_def)
  then have "bit_array_dice_sim [True, False] [True, True] =
      2 * real (count_ones (map2 (\<and>) [True, False] [True, True]))
        / real (count_ones [True, False] + count_ones [True, True])"
    using bit_array_dice_sim_properties [OF len] by blast
  then have one: "bit_array_dice_sim [True, False] [True, True] = 2 / 3"
    by (simp add: count_ones_def)
  have "0 < count_ones [True, False]"
    by (simp add: count_ones_def)
  then have three: "bit_array_dice_sim [True, False] [True, False] = 1"
    using bit_array_dice_sim_properties [of "[True, False]" "[True, False]"] by simp
  have two: "bit_array_dice_sim [False, False] [False, False] = 0"
    using bit_array_dice_sim_properties [of "[False, False]" "[False, False]"]
    by (simp add: count_ones_def)
  show ?thesis
    using one two three by simp
qed

section \<open>Properties of the linkage engine\<close>

lemma counter_gen_shuffle_permutes: "shuffle_permutes (counter_gen :: (nat, 'a) random_module)"
  by (simp add: shuffle_permutes_def counter_gen_def)

lemma update_fresh: "k \<notin> fst ` set al \<Longrightarrow> AList.update k v al = al @ [(k, v)]"
  by (induction al) auto

lemma fold_update_fresh:
  "distinct (map fst l) \<Longrightarrow> fst ` set acc \<inter> fst ` set l = {} \<Longrightarrow>
   fold (\<lambda>(k, v). AList.update k v) l acc = acc @ l"
proof (induction l arbitrary: acc)
  case Nil
  show ?case by simp
next
  case (Cons x l)
  obtain k v where x: "x = (k, v)" by (cases x)
  have fresh: "k \<notin> fst ` set acc"
    using Cons.prems(2) x by auto
  have d: "distinct (map fst l)"
    using Cons.prems(1) by simp
  have disj: "fst ` set (acc @ [(k, v)]) \<inter> fst ` set l = {}"
    using Cons.prems x by auto
  show ?case
    using Cons.IH [OF d disj] by (simp add: x update_fresh [OF fresh])
qed

lemma dict_of_items_distinct: "distinct (map fst l) \<Longrightarrow> dict_of_items l = l"
  using fold_update_fresh [of l "[]"] by (simp add: dict_of_items_def)

lemma fold_update_keys:
  "fst ` set (fold (\<lambda>(k, v). AList.update k v) l acc) = fst ` set acc \<union> fst ` set l"
  by (induction l arbitrary: acc) (auto simp: dom_update split: prod.splits)

lemma fold_update_distinct:
  "distinct (map fst acc) \<Longrightarrow> distinct (map fst (fold (\<lambda>(k, v). AList.update k v) l acc))"
  by (induction l arbitrary: acc) (auto simp: distinct_update split: prod.splits)

lemma length_dict_of_items: "length (dict_of_items l) = card (fst ` set l)"
proof -
  have "distinct (map fst (dict_of_items l))"
    unfolding dict_of_items_def by (rule fold_update_distinct) simp
  then have "length (map fst (dict_of_items l)) = card (set (map fst (dict_of_items l)))"
    by (rule distinct_card [symmetric])
  then show ?thesis
    by (simp add: dict_of_items_def fold_update_keys)
qed

lemma fold_max_Max: "fold max vs (v :: real) = Max (set (v # vs))"
  using Max.set_eq_fold [of v vs] by simp

lemma max_of_values_Max:
  "vs \<noteq> [] \<Longrightarrow> max_of_values vs = Inr (Max (set vs))"
  by (cases vs) (simp_all add: max_of_values_def fold_max_Max)

lemma list_single_or_several:
  "xs \<noteq> [] \<Longrightarrow> (\<exists>k. xs = [k]) \<or> 1 < length xs"
  by (cases xs; cases "tl xs") auto

lemma maximal_candidates_filter:
  assumes "sim_data \<noteq> []"
  shows "maximal_candidates sim_data =
     set (map fst (filter (\<lambda>(k, v). v = Max (snd ` set sim_data)) sim_data))"
proof -
  define m where "m = Max (snd ` set sim_data)"
  have fin: "finite (snd ` set sim_data)" "snd ` set sim_data \<noteq> {}"
    using assms by simp_all
  have "m \<in> snd ` set sim_data"
    unfolding m_def by (rule Max_in [OF fin])
  then obtain k0 where k0: "(k0, m) \<in> set sim_data"
    by auto
  have m_ge: "v \<le> m" if "(k, v) \<in> set sim_data" for k v
  proof -
    have "snd (k, v) \<in> snd ` set sim_data"
      using that by (rule imageI)
    then have "v \<in> snd ` set sim_data" by simp
    then show ?thesis
      unfolding m_def using fin(1) by (rule Max_ge [rotated])
  qed
  have "maximal_candidates sim_data = {k. (k, m) \<in> set sim_data}"
  proof (intro set_eqI iffI)
    fix k assume "k \<in> maximal_candidates sim_data"
    then obtain v where v: "(k, v) \<in> set sim_data" "\<forall>(k', v') \<in> set sim_data. v' \<le> v"
      unfolding maximal_candidates_def by blast
    have "m \<le> v" using v(2) k0 by blast
    moreover have "v \<le> m" using m_ge [OF v(1)] .
    ultimately have "v = m" by simp
    then show "k \<in> {k. (k, m) \<in> set sim_data}"
      using v(1) by simp
  next
    fix k assume "k \<in> {k. (k, m) \<in> set sim_data}"
    then have km: "(k, m) \<in> set sim_data" by simp
    have "\<forall>(k', v') \<in> set sim_data. v' \<le> m"
      using m_ge by blast
    then show "k \<in> maximal_candidates sim_data"
      unfolding maximal_candidates_def using km by blast
  qed
  also have "\<dots> = set (map fst (filter (\<lambda>(k, v). v = m) sim_data))"
    by force
  finally show ?thesis
    unfolding m_def .
qed

lemma count_outcome_spec:
  assumes "sim_data \<noteq> []" and "distinct (map fst sim_data)"
  shows "\<exists>oc. spec_outcome rec_id (maximal_candidates sim_data) = Some oc
           \<and> count_outcome rec_id sim_data counts = Inr (credit oc counts)"
proof -
  define max_keys where
    "max_keys = map fst (filter (\<lambda>(k, v). v = Max (snd ` set sim_data)) sim_data)"
  have ne_vals: "map snd sim_data \<noteq> []"
    using assms(1) by simp
  have mv: "max_of_values (map snd sim_data) = Inr (Max (snd ` set sim_data))"
    using max_of_values_Max [OF ne_vals] by simp
  have run: "count_outcome rec_id sim_data counts =
      (let counts1 =
             (if length max_keys = 1 then
                (if max_keys ! 0 = rec_id
                 then counts\<lparr>one_one_correct := one_one_correct counts + 1\<rparr>
                 else counts\<lparr>one_one_wrong := one_one_wrong counts + 1\<rparr>)
              else counts);
           counts2 =
             (if length max_keys > 1 then
                (if rec_id \<in> set max_keys
                 then counts1\<lparr>one_n_correct := one_n_correct counts1 + 1\<rparr>
                 else counts1\<lparr>one_n_wrong := one_n_wrong counts1 + 1\<rparr>)
              else counts1)
       in Inr counts2)"
    unfolding count_outcome_def mv max_keys_def by (simp only: sum.case Let_def)
  have M: "maximal_candidates sim_data = set max_keys"
    unfolding max_keys_def by (rule maximal_candidates_filter [OF assms(1)])
  have dist: "distinct max_keys"
    unfolding max_keys_def using assms(2) by (rule distinct_map_filter)
  have len: "length max_keys = card (set max_keys)"
    using dist by (rule distinct_card [symmetric])
  have "maximal_candidates sim_data \<noteq> {}"
  proof -
    have "Max (snd ` set sim_data) \<in> snd ` set sim_data"
      using assms(1) by (intro Max_in) simp_all
    then obtain k where "(k, Max (snd ` set sim_data)) \<in> set sim_data"
      by auto
    then have "k \<in> set max_keys"
      unfolding max_keys_def by force
    then show ?thesis using M by auto
  qed
  then have ne: "max_keys \<noteq> []"
    using M by auto
  from list_single_or_several [OF ne]
  consider (single) k where "max_keys = [k]" | (several) "1 < length max_keys"
    by blast
  then show ?thesis
  proof cases
    case single
    show ?thesis
    proof (cases "k = rec_id")
      case True
      have "spec_outcome rec_id (maximal_candidates sim_data) = Some One_one_correct"
        unfolding M single True by (simp add: spec_outcome_def)
      moreover have "count_outcome rec_id sim_data counts = Inr (credit One_one_correct counts)"
        unfolding run single True by simp
      ultimately show ?thesis by blast
    next
      case False
      have "spec_outcome rec_id (maximal_candidates sim_data) = Some One_one_wrong"
        unfolding M single using False by (auto simp: spec_outcome_def)
      moreover have "count_outcome rec_id sim_data counts = Inr (credit One_one_wrong counts)"
        unfolding run single using False by simp
      ultimately show ?thesis by blast
    qed
  next
    case several
    have card: "1 < card (set max_keys)"
      using several len by simp
    have not_single: "set max_keys \<noteq> {rec_id}"
    proof
      assume "set max_keys = {rec_id}"
      then have "card (set max_keys) = 1" by simp
      then show False using card by simp
    qed
    have not_one: "length max_keys \<noteq> 1"
      using several by simp
    show ?thesis
    proof (cases "rec_id \<in> set max_keys")
      case True
      have "spec_outcome rec_id (maximal_candidates sim_data) = Some One_n_correct"
        unfolding M using card not_single True by (simp add: spec_outcome_def)
      moreover have "count_outcome rec_id sim_data counts = Inr (credit One_n_correct counts)"
        unfolding run using several not_one True by simp
      ultimately show ?thesis by blast
    next
      case False
      have "spec_outcome rec_id (maximal_candidates sim_data) = Some One_n_wrong"
        unfolding M using card not_single False by (simp add: spec_outcome_def)
      moreover have "count_outcome rec_id sim_data counts = Inr (credit One_n_wrong counts)"
        unfolding run using several not_one False by simp
      ultimately show ?thesis by blast
    qed
  qed
qed

lemma sim_loop_all:
  assumes "\<forall>(cid, c) \<in> set pool. has_all_attributes c"
    and "distinct (map fst pool)"
    and "fst ` set acc1 \<inter> fst ` set pool = {}"
    and "fst ` set acc2 \<inter> fst ` set pool = {}"
  shows "sim_loop sim q_og q_hd pool acc1 acc2 =
     Inr (acc1 @ map (\<lambda>(cid, c). (cid, sim q_og (the (og_bf c)))) pool,
          acc2 @ map (\<lambda>(cid, c). (cid, sim q_hd (the (hd_bf c)))) pool)"
  using assms
proof (induction pool arbitrary: acc1 acc2)
  case Nil
  show ?case by simp
next
  case (Cons x pool)
  obtain cid c where x: "x = (cid, c)" by (cases x)
  have attrs: "has_all_attributes c"
    using Cons.prems(1) x by simp
  then obtain qs c_og c_hd where c:
    "q_gram_set c = Some qs" "og_bf c = Some c_og" "hd_bf c = Some c_hd"
    unfolding has_all_attributes_def by blast
  have fresh1: "cid \<notin> fst ` set acc1" and fresh2: "cid \<notin> fst ` set acc2"
    using Cons.prems(3,4) x by auto
  have step: "sim_loop sim q_og q_hd (x # pool) acc1 acc2 =
      sim_loop sim q_og q_hd pool (acc1 @ [(cid, sim q_og c_og)]) (acc2 @ [(cid, sim q_hd c_hd)])"
    by (simp add: x c update_fresh [OF fresh1] update_fresh [OF fresh2])
  have p1: "\<forall>(cid, c) \<in> set pool. has_all_attributes c"
    using Cons.prems(1) by simp
  have p2: "distinct (map fst pool)"
    using Cons.prems(2) by simp
  have p3: "fst ` set (acc1 @ [(cid, sim q_og c_og)]) \<inter> fst ` set pool = {}"
    using Cons.prems(2,3) x by auto
  have p4: "fst ` set (acc2 @ [(cid, sim q_hd c_hd)]) \<inter> fst ` set pool = {}"
    using Cons.prems(2,4) x by auto
  show ?case
    unfolding step Cons.IH [OF p1 p2 p3 p4] by (simp add: x c)
qed

text \<open>
  Claim C2.  For a query record and each of the two similarity variants, the
  similarities of the query against every candidate of the comparison pool are computed,
  the maximal candidates are all those attaining the maximum (ties are kept), and exactly
  one counter of the variant is incremented: 1-1-correct if the maximal set is the
  singleton of the query, 1-1-wrong if it is another singleton, 1-n-correct if it has
  several members and the query is one of them, 1-n-wrong if it has several members and
  the query is not.  The query and the candidates carry their three attributes, and the
  pool is a non-empty dictionary.
\<close>
theorem compare_query_classifies:
  assumes "has_all_attributes rec_data"
    and "\<forall>(cid, c) \<in> set pool. has_all_attributes c"
    and "distinct (map fst pool)" and "pool \<noteq> []"
  shows "\<exists>o_og o_blip.
      spec_outcome rec_id (maximal_candidates (similarities sim og_bf rec_data pool)) = Some o_og
    \<and> spec_outcome rec_id (maximal_candidates (similarities sim hd_bf rec_data pool)) = Some o_blip
    \<and> compare_query sim rec_id rec_data pool res =
        Inr \<lparr> og_bf_dice = credit o_og (og_bf_dice res),
              blip_bf_dice = credit o_blip (blip_bf_dice res) \<rparr>"
proof -
  obtain qs q_og q_hd where q:
    "q_gram_set rec_data = Some qs" "og_bf rec_data = Some q_og" "hd_bf rec_data = Some q_hd"
    using assms(1) unfolding has_all_attributes_def by blast
  have loop: "sim_loop sim q_og q_hd pool [] [] =
      Inr (similarities sim og_bf rec_data pool, similarities sim hd_bf rec_data pool)"
    using sim_loop_all [OF assms(2,3), of "[]" "[]" sim q_og q_hd]
    by (simp add: similarities_def q)
  have keys: "map fst (similarities sim attr rec_data pool) = map fst pool" for attr
    by (simp add: similarities_def comp_def case_prod_unfold)
  have ne: "similarities sim attr rec_data pool \<noteq> []" for attr
    using assms(4) by (simp add: similarities_def)
  have dist: "distinct (map fst (similarities sim attr rec_data pool))" for attr
    unfolding keys by (rule assms(3))
  obtain o_og where og:
    "spec_outcome rec_id (maximal_candidates (similarities sim og_bf rec_data pool)) = Some o_og"
    "count_outcome rec_id (similarities sim og_bf rec_data pool) (og_bf_dice res) =
       Inr (credit o_og (og_bf_dice res))"
    using count_outcome_spec [OF ne dist] by blast
  obtain o_blip where blip:
    "spec_outcome rec_id (maximal_candidates (similarities sim hd_bf rec_data pool)) = Some o_blip"
    "count_outcome rec_id (similarities sim hd_bf rec_data pool) (blip_bf_dice res) =
       Inr (credit o_blip (blip_bf_dice res))"
    using count_outcome_spec [OF ne dist] by blast
  have "compare_query sim rec_id rec_data pool res =
      Inr \<lparr> og_bf_dice = credit o_og (og_bf_dice res),
            blip_bf_dice = credit o_blip (blip_bf_dice res) \<rparr>"
    by (simp add: compare_query_def q loop og(2) blip(2))
  then show ?thesis
    using og(1) blip(1) by blast
qed

text \<open>
  Claim C2 for the query v2 against a pool of two records.
\<close>
theorem compare_query_classifies_witness:
  "\<exists>o_og o_blip.
      spec_outcome ''v2'' (maximal_candidates (similarities bit_array_dice_sim og_bf
          \<lparr> q_gram_set = Some [''cd''], og_bf = Some [False, True], hd_bf = Some [False, True] \<rparr>
          [(''v2'', \<lparr> q_gram_set = Some [''cd''], og_bf = Some [False, True],
                     hd_bf = Some [False, False] \<rparr>),
           (''v1'', \<lparr> q_gram_set = Some [''ab''], og_bf = Some [True, False],
                     hd_bf = Some [True, False] \<rparr>)])) = Some o_og
    \<and> spec_outcome ''v2'' (maximal_candidates (similarities bit_array_dice_sim hd_bf
          \<lparr> q_gram_set = Some [''cd''], og_bf = Some [False, True], hd_bf = Some [False, True] \<rparr>
          [(''v2'', \<lparr> q_gram_set = Some [''cd''], og_bf = Some [False, True],
                     hd_bf = Some [False, False] \<rparr>),
           (''v1'', \<lparr> q_gram_set = Some [''ab''], og_bf = Some [True, False],
                     hd_bf = Some [True, False] \<rparr>)])) = Some o_blip
    \<and> compare_query bit_array_dice_sim ''v2''
          \<lparr> q_gram_set = Some [''cd''], og_bf = Some [False, True], hd_bf = Some [False, True] \<rparr>
          [(''v2'', \<lparr> q_gram_set = Some [''cd''], og_bf = Some [False, True],
                     hd_bf = Some [False, False] \<rparr>),
           (''v1'', \<lparr> q_gram_set = Some [''ab''], og_bf = Some [True, False],
                     hd_bf = Some [True, False] \<rparr>)]
          \<lparr> og_bf_dice = zero_counts, blip_bf_dice = zero_counts \<rparr> =
        Inr \<lparr> og_bf_dice = credit o_og zero_counts, blip_bf_dice = credit o_blip zero_counts \<rparr>"
proof -
  have a: "has_all_attributes
      \<lparr> q_gram_set = Some [''cd''], og_bf = Some [False, True], hd_bf = Some [False, True] \<rparr>"
    by (simp add: has_all_attributes_def)
  have b: "\<forall>(cid, c) \<in> set
      [(''v2'', \<lparr> q_gram_set = Some [''cd''], og_bf = Some [False, True],
                 hd_bf = Some [False, False] \<rparr>),
       (''v1'', \<lparr> q_gram_set = Some [''ab''], og_bf = Some [True, False],
                 hd_bf = Some [True, False] \<rparr>)]. has_all_attributes c"
    by (simp add: has_all_attributes_def)
  have c: "distinct (map fst
      [(''v2'', \<lparr> q_gram_set = Some [''cd''], og_bf = Some [False, True],
                 hd_bf = Some [False, False] \<rparr>),
       (''v1'', \<lparr> q_gram_set = Some [''ab''], og_bf = Some [True, False],
                 hd_bf = Some [True, False] \<rparr>)])"
    by simp
  have d: "[(''v2'', \<lparr> q_gram_set = Some [''cd''], og_bf = Some [False, True],
                 hd_bf = Some [False, False] \<rparr>),
       (''v1'', \<lparr> q_gram_set = Some [''ab''], og_bf = Some [True, False],
                 hd_bf = Some [True, False] \<rparr>)] \<noteq> []"
    by simp
  from compare_query_classifies [OF a b c d, of "''v2''" bit_array_dice_sim
      "\<lparr> og_bf_dice = zero_counts, blip_bf_dice = zero_counts \<rparr>"]
  show ?thesis by simp
qed

lemma count_outcome_empty: "count_outcome rec_id [] counts = Inl ValueError"
  by (simp add: count_outcome_def max_of_values_def)

lemma count_outcome_credits:
  assumes "sim_data \<noteq> []"
  shows "\<exists>oc. count_outcome rec_id sim_data counts = Inr (credit oc counts)"
proof -
  define max_keys where
    "max_keys = map fst (filter (\<lambda>(k, v). v = Max (snd ` set sim_data)) sim_data)"
  have ne_vals: "map snd sim_data \<noteq> []"
    using assms by simp
  have mv: "max_of_values (map snd sim_data) = Inr (Max (snd ` set sim_data))"
    using max_of_values_Max [OF ne_vals] by simp
  have run: "count_outcome rec_id sim_data counts =
      (let counts1 =
             (if length max_keys = 1 then
                (if max_keys ! 0 = rec_id
                 then counts\<lparr>one_one_correct := one_one_correct counts + 1\<rparr>
                 else counts\<lparr>one_one_wrong := one_one_wrong counts + 1\<rparr>)
              else counts);
           counts2 =
             (if length max_keys > 1 then
                (if rec_id \<in> set max_keys
                 then counts1\<lparr>one_n_correct := one_n_correct counts1 + 1\<rparr>
                 else counts1\<lparr>one_n_wrong := one_n_wrong counts1 + 1\<rparr>)
              else counts1)
       in Inr counts2)"
    unfolding count_outcome_def mv max_keys_def by (simp only: sum.case Let_def)
  have "Max (snd ` set sim_data) \<in> snd ` set sim_data"
    using assms by (intro Max_in) simp_all
  then obtain k where "(k, Max (snd ` set sim_data)) \<in> set sim_data"
    by auto
  then have "k \<in> set max_keys"
    unfolding max_keys_def by force
  then have ne: "max_keys \<noteq> []"
    by auto
  from list_single_or_several [OF ne]
  consider (single) k where "max_keys = [k]" | (several) "1 < length max_keys"
    by blast
  then show ?thesis
  proof cases
    case single
    have "count_outcome rec_id sim_data counts =
        Inr (credit (if k = rec_id then One_one_correct else One_one_wrong) counts)"
      unfolding run single by simp
    then show ?thesis by blast
  next
    case several
    have not_one: "length max_keys \<noteq> 1"
      using several by simp
    have "count_outcome rec_id sim_data counts =
        Inr (credit (if rec_id \<in> set max_keys then One_n_correct else One_n_wrong) counts)"
      unfolding run using several not_one by simp
    then show ?thesis by blast
  qed
qed

lemma total_count_credit: "total_count (credit oc c) = total_count c + 1"
  by (cases oc) (simp_all add: total_count_def)

lemma count_outcome_total:
  assumes "count_outcome rec_id sim_data counts = Inr counts'"
  shows "total_count counts' = total_count counts + 1"
proof -
  have "sim_data \<noteq> []"
    using assms count_outcome_empty by auto
  then obtain oc where "count_outcome rec_id sim_data counts = Inr (credit oc counts)"
    using count_outcome_credits by blast
  then have "counts' = credit oc counts"
    using assms by simp
  then show ?thesis
    by (simp add: total_count_credit)
qed

lemma compare_query_total:
  assumes "compare_query sim rec_id rec_data pool res = Inr res'"
  shows "total_count (og_bf_dice res') = total_count (og_bf_dice res) + 1
       \<and> total_count (blip_bf_dice res') = total_count (blip_bf_dice res) + 1"
proof -
  from assms obtain og_sims blip_sims c1 c2 where
    og: "count_outcome rec_id og_sims (og_bf_dice res) = Inr c1" and
    blip: "count_outcome rec_id blip_sims (blip_bf_dice res) = Inr c2" and
    res': "res' = \<lparr> og_bf_dice = c1, blip_bf_dice = c2 \<rparr>"
    unfolding compare_query_def
    by (auto split: option.splits sum.splits prod.splits)
  show ?thesis
    using count_outcome_total [OF og] count_outcome_total [OF blip] by (simp add: res')
qed

lemma compare_queries_total:
  "compare_queries sim qs pool res = Inr res' \<Longrightarrow>
   total_count (og_bf_dice res') = total_count (og_bf_dice res) + length qs
   \<and> total_count (blip_bf_dice res') = total_count (blip_bf_dice res) + length qs"
proof (induction qs arbitrary: res)
  case Nil
  then show ?case by simp
next
  case (Cons x qs)
  obtain rec_id rec_data where x: "x = (rec_id, rec_data)" by (cases x)
  from Cons.prems obtain res1 where
    one: "compare_query sim rec_id rec_data pool res = Inr res1" and
    rest: "compare_queries sim qs pool res1 = Inr res'"
    by (auto simp: x split: sum.splits)
  show ?case
    using compare_query_total [OF one] Cons.IH [OF rest] by simp
qed

lemma harden_records_keys:
  "harden_records R h d g = Inr (d', g') \<Longrightarrow> map fst d' = map fst d"
proof (induction d arbitrary: d' g g')
  case Nil
  then show ?case by simp
next
  case (Cons x d)
  obtain rec_id rec_data where x: "x = (rec_id, rec_data)" by (cases x)
  from Cons.prems obtain bf blip_bf g1 rest' where
    "harden_records R h d g1 = Inr (rest', g')" and
    "d' = (rec_id, rec_data\<lparr>hd_bf := Some blip_bf\<rparr>) # rest'"
    by (auto simp: x split: option.splits sum.splits prod.splits)
  then show ?case
    using Cons.IH by (simp add: x)
qed

lemma harden_records_length:
  "harden_records R h d g = Inr (d', g') \<Longrightarrow> length d' = length d"
  using harden_records_keys [of R h d g d' g'] by (metis length_map)

lemma compare_subset_Inr:
  assumes "compare_subset R sim sel p bss B rt S res g = Inr (res', g')"
  shows "\<exists>h S' g2 pool' counts.
      rt \<in> set FILTERED_ID_TYPES \<and> rt \<notin> fst ` set res
    \<and> BLIP_init sel p (Some 42) = Inr h
    \<and> harden_records R h S (snd (rnd_shuffle R (dict_merge B S) g)) = Inr (S', g2)
    \<and> harden_records R h (dict_of_items (fst (rnd_shuffle R (dict_merge B S) g))) g2
          = Inr (pool', g')
    \<and> int (length pool') = int (length S') + int (length B)
    \<and> int (length S') + int (length B) = bss + 1000
    \<and> compare_queries sim S' pool' \<lparr> og_bf_dice = zero_counts, blip_bf_dice = zero_counts \<rparr>
          = Inr counts
    \<and> res' = AList.update rt counts res"
  using assms unfolding compare_subset_def Let_def
  by (auto split: if_splits sum.splits prod.splits)

lemma total_zero_counts: "total_count zero_counts = 0"
  by (simp add: total_count_def zero_counts_def)

lemma compare_subset_totals:
  assumes "compare_subset R sim sel p bss B rt S res g = Inr (res', g')"
  shows "rt \<notin> fst ` set res \<and>
    (\<exists>c. res' = AList.update rt c res
       \<and> total_count (og_bf_dice c) = length S \<and> total_count (blip_bf_dice c) = length S)"
proof -
  from compare_subset_Inr [OF assms] obtain h S' g2 pool' counts where
    fresh: "rt \<notin> fst ` set res" and
    pass1: "harden_records R h S (snd (rnd_shuffle R (dict_merge B S) g)) = Inr (S', g2)" and
    queries: "compare_queries sim S' pool'
        \<lparr> og_bf_dice = zero_counts, blip_bf_dice = zero_counts \<rparr> = Inr counts" and
    res': "res' = AList.update rt counts res"
    by blast
  have len: "length S' = length S"
    using pass1 by (rule harden_records_length)
  have "total_count (og_bf_dice counts) = length S \<and> total_count (blip_bf_dice counts) = length S"
    using compare_queries_total [OF queries] by (simp add: total_zero_counts len)
  then show ?thesis
    using fresh res' by blast
qed

lemma compare_subsets_totals:
  "compare_subsets R sim sel p bss B items res g = Inr (res', g') \<Longrightarrow>
   (\<forall>rt \<in> fst ` set res. map_of res' rt = map_of res rt)
   \<and> (\<forall>(rt, S) \<in> set items. rt \<noteq> ''b'' \<longrightarrow>
         (\<exists>c. map_of res' rt = Some c
            \<and> total_count (og_bf_dice c) = length S \<and> total_count (blip_bf_dice c) = length S))"
proof (induction items arbitrary: res g)
  case Nil
  then show ?case by simp
next
  case (Cons x items)
  obtain rt S where x: "x = (rt, S)" by (cases x)
  show ?case
  proof (cases "rt = ''b''")
    case True
    then have "compare_subsets R sim sel p bss B items res g = Inr (res', g')"
      using Cons.prems by (simp add: x)
    from Cons.IH [OF this] show ?thesis
      using True by (simp add: x)
  next
    case False
    from Cons.prems False obtain res1 g1 where
      one: "compare_subset R sim sel p bss B rt S res g = Inr (res1, g1)" and
      rest: "compare_subsets R sim sel p bss B items res1 g1 = Inr (res', g')"
      by (auto simp: x split: sum.splits)
    from compare_subset_totals [OF one] obtain c where
      fresh: "rt \<notin> fst ` set res" and
      res1: "res1 = AList.update rt c res" and
      tot: "total_count (og_bf_dice c) = length S" "total_count (blip_bf_dice c) = length S"
      by blast
    have ih: "\<forall>k \<in> fst ` set res1. map_of res' k = map_of res1 k"
      "\<forall>(k, T) \<in> set items. k \<noteq> ''b'' \<longrightarrow>
         (\<exists>c. map_of res' k = Some c
            \<and> total_count (og_bf_dice c) = length T \<and> total_count (blip_bf_dice c) = length T)"
      using Cons.IH [OF rest] by blast+
    have keys1: "fst ` set res1 = insert rt (fst ` set res)"
      unfolding res1 by (simp add: dom_update)
    have "rt \<in> fst ` set res1"
      unfolding keys1 by simp
    then have "map_of res' rt = map_of res1 rt"
      using ih(1) by blast
    then have here: "map_of res' rt = Some c"
      by (simp add: res1 update_conv')
    have old: "map_of res' k = map_of res k" if "k \<in> fst ` set res" for k
    proof -
      have "k \<noteq> rt" using that fresh by auto
      then have a: "map_of res1 k = map_of res k"
        by (simp add: res1 update_conv')
      have "k \<in> fst ` set res1"
        unfolding keys1 using that by simp
      then have "map_of res' k = map_of res1 k"
        using ih(1) by blast
      then show ?thesis
        using a by simp
    qed
    show ?thesis
      using old here tot ih(2) by (auto simp: x)
  qed
qed

text \<open>
  Claim C3.  When the comparison of all subsets completes, every subset other than the
  base pool has an entry in the result, and for each of the two similarity variants its
  four counters sum to the number of records of the subset.
\<close>
theorem compare_record_pairs_totals:
  assumes "compare_record_pairs R sim data_dict blip_sel_method blip_flip_prob base_sample_size g
             = Inr (res_dict, g')"
    and "(rec_type, rec_type_dict) \<in> set data_dict" and "rec_type \<noteq> ''b''"
  shows "\<exists>c. map_of res_dict rec_type = Some c
      \<and> one_one_correct (og_bf_dice c) + one_one_wrong (og_bf_dice c)
          + one_n_correct (og_bf_dice c) + one_n_wrong (og_bf_dice c) = length rec_type_dict
      \<and> one_one_correct (blip_bf_dice c) + one_one_wrong (blip_bf_dice c)
          + one_n_correct (blip_bf_dice c) + one_n_wrong (blip_bf_dice c) = length rec_type_dict"
proof -
  from assms(1) obtain B where
    "compare_subsets R sim blip_sel_method blip_flip_prob base_sample_size B data_dict [] g
       = Inr (res_dict, g')"
    unfolding compare_record_pairs_def by (auto split: option.splits)
  from compare_subsets_totals [OF this] assms(2,3)
  obtain c where "map_of res_dict rec_type = Some c"
    "total_count (og_bf_dice c) = length rec_type_dict"
    "total_count (blip_bf_dice c) = length rec_type_dict"
    by blast
  then show ?thesis
    unfolding total_count_def by blast
qed

text \<open>
  Claim C3 on a run that completes: a base pool of one record and a subset r1 of one
  record, with the base sample size -998, so that the size assertion holds.
\<close>
theorem compare_record_pairs_totals_witness:
  "compare_record_pairs (counter_gen :: (nat, string \<times> rec_data) random_module)
     bit_array_dice_sim
     [(''b'', [(''v1'', encoded_rec [''ab''] [True, False])]),
      (''r1'', [(''v2'', encoded_rec [''cd''] [False, True])])]
     ''ala'' 0 (- 998) 0 =
   Inr ([(''r1'',
          \<lparr> og_bf_dice = \<lparr> one_one_correct = 1, one_one_wrong = 0, one_n_correct = 0, one_n_wrong = 0 \<rparr>,
            blip_bf_dice = \<lparr> one_one_correct = 0, one_one_wrong = 0, one_n_correct = 1, one_n_wrong = 0 \<rparr> \<rparr>)],
        7)
   \<and> (\<exists>c. map_of [(''r1'',
          \<lparr> og_bf_dice = \<lparr> one_one_correct = 1, one_one_wrong = 0, one_n_correct = 0, one_n_wrong = 0 \<rparr>,
            blip_bf_dice = \<lparr> one_one_correct = 0, one_one_wrong = 0, one_n_correct = 1, one_n_wrong = 0 \<rparr> \<rparr>)]
          ''r1'' = Some c
      \<and> one_one_correct (og_bf_dice c) + one_one_wrong (og_bf_dice c)
          + one_n_correct (og_bf_dice c) + one_n_wrong (og_bf_dice c)
          = length [(''v2'', encoded_rec [''cd''] [False, True])]
      \<and> one_one_correct (blip_bf_dice c) + one_one_wrong (blip_bf_dice c)
          + one_n_correct (blip_bf_dice c) + one_n_wrong (blip_bf_dice c)
          = length [(''v2'', encoded_rec [''cd''] [False, True])])"
proof -
  have run: "compare_record_pairs (counter_gen :: (nat, string \<times> rec_data) random_module)
     bit_array_dice_sim
     [(''b'', [(''v1'', encoded_rec [''ab''] [True, False])]),
      (''r1'', [(''v2'', encoded_rec [''cd''] [False, True])])]
     ''ala'' 0 (- 998) 0 =
   Inr ([(''r1'',
          \<lparr> og_bf_dice = \<lparr> one_one_correct = 1, one_one_wrong = 0, one_n_correct = 0, one_n_wrong = 0 \<rparr>,
            blip_bf_dice = \<lparr> one_one_correct = 0, one_one_wrong = 0, one_n_correct = 1, one_n_wrong = 0 \<rparr> \<rparr>)],
        7)"
    by (simp add: compare_record_pairs_def compare_subset_def FILTERED_ID_TYPES_def
      dict_merge_def dict_of_items_def counter_gen_def BLIP_init_def encoded_rec_def
      harden_bf_bits harden_bit_def compare_query_def count_outcome_def max_of_values_def
      bit_array_dice_sim_def count_ones_def zero_counts_def Let_def)
  have mem: "(''r1'', [(''v2'', encoded_rec [''cd''] [False, True])]) \<in> set
     [(''b'', [(''v1'', encoded_rec [''ab''] [True, False])]),
      (''r1'', [(''v2'', encoded_rec [''cd''] [False, True])])]"
    by simp
  have nb: "''r1'' \<noteq> ''b''"
    by simp
  show ?thesis
    using compare_record_pairs_totals [OF run mem nb] run by blast
qed

lemma update_subset: "set (AList.update k v al) \<subseteq> insert (k, v) (set al)"
  by (induction al) auto

lemma fold_update_subset:
  "set (fold (\<lambda>(k, v). AList.update k v) l acc) \<subseteq> set acc \<union> set l"
proof (induction l arbitrary: acc)
  case Nil
  show ?case by simp
next
  case (Cons x l)
  obtain k v where x: "x = (k, v)" by (cases x)
  have "set (fold (\<lambda>(k, v). AList.update k v) l (AList.update k v acc))
      \<subseteq> set (AList.update k v acc) \<union> set l"
    by (rule Cons.IH)
  also have "\<dots> \<subseteq> insert (k, v) (set acc) \<union> set l"
    using update_subset [of k v acc] by blast
  finally show ?case
    by (auto simp: x)
qed

lemma dict_of_items_subset: "set (dict_of_items l) \<subseteq> set l"
  using fold_update_subset [of l "[]"] by (simp add: dict_of_items_def)

lemma dict_of_items_keys_distinct: "distinct (map fst (dict_of_items l))"
  unfolding dict_of_items_def by (rule fold_update_distinct) simp

lemma harden_records_total:
  "\<forall>(k, r) \<in> set d. og_bf r \<noteq> None \<Longrightarrow> \<exists>d' g'. harden_records R h d g = Inr (d', g')"
proof (induction d arbitrary: g)
  case Nil
  show ?case by simp
next
  case (Cons x d)
  obtain k r where x: "x = (k, r)" by (cases x)
  obtain bf where bf: "og_bf r = Some bf"
    using Cons.prems x by auto
  obtain blip_bf g1 where one: "harden_bf R h bf g = Inr (blip_bf, g1)"
    by (cases "harden_bits R h bf g") (simp add: harden_bf_bits)
  have "\<forall>(k, r) \<in> set d. og_bf r \<noteq> None"
    using Cons.prems by simp
  from Cons.IH [OF this] obtain d' g' where "harden_records R h d g1 = Inr (d', g')"
    by blast
  then show ?case
    by (simp add: x bf one)
qed

lemma sim_loop_errors:
  "sim_loop sim q_og q_hd pool acc1 acc2 = Inl e \<Longrightarrow> e \<noteq> AssertionError pool_size_message"
proof (induction pool arbitrary: acc1 acc2)
  case Nil
  then show ?case by simp
next
  case (Cons x pool)
  obtain cid c where x: "x = (cid, c)" by (cases x)
  show ?case
    using Cons.prems Cons.IH
    by (auto simp: x pool_size_message_def split: option.splits)
qed

lemma count_outcome_errors:
  "count_outcome rec_id sim_data counts = Inl e \<Longrightarrow> e = ValueError"
  by (cases sim_data) (auto simp: count_outcome_def max_of_values_def Let_def)

lemma compare_query_errors:
  assumes "compare_query sim rec_id rec_data pool res = Inl e"
  shows "e \<noteq> AssertionError pool_size_message"
proof
  assume e: "e = AssertionError pool_size_message"
  have "False"
    using assms sim_loop_errors [of sim _ _ pool "[]" "[]" e] count_outcome_errors [of rec_id _ _ e]
    unfolding compare_query_def e
    by (auto simp: pool_size_message_def split: option.splits sum.splits prod.splits)
  then show False .
qed

lemma compare_queries_errors:
  "compare_queries sim qs pool res = Inl e \<Longrightarrow> e \<noteq> AssertionError pool_size_message"
proof (induction qs arbitrary: res)
  case Nil
  then show ?case by simp
next
  case (Cons x qs)
  obtain rec_id rec_data where x: "x = (rec_id, rec_data)" by (cases x)
  show ?case
    using Cons.prems Cons.IH compare_query_errors [of sim rec_id rec_data pool res e]
    by (auto simp: x split: sum.splits)
qed

lemma compare_subset_run:
  assumes "shuffle_permutes R"
    and "rec_type \<in> set FILTERED_ID_TYPES" and "rec_type \<notin> fst ` set res_dict"
    and "BLIP_init blip_sel_method blip_flip_prob (Some 42) = Inr h"
    and "\<forall>(k, r) \<in> set base_records \<union> set rec_type_dict. og_bf r \<noteq> None"
  shows "\<exists>l g1 S' g2 pool' g3.
      rnd_shuffle R (dict_merge base_records rec_type_dict) g = (l, g1)
    \<and> mset l = mset (dict_merge base_records rec_type_dict)
    \<and> distinct (map fst l) \<and> set l \<subseteq> set base_records \<union> set rec_type_dict
    \<and> harden_records R h rec_type_dict g1 = Inr (S', g2)
    \<and> harden_records R h l g2 = Inr (pool', g3)
    \<and> compare_subset R sim blip_sel_method blip_flip_prob base_sample_size base_records
          rec_type rec_type_dict res_dict g =
        (if \<not> (int (length (dict_merge base_records rec_type_dict))
                   = int (length rec_type_dict) + int (length base_records)
                 \<and> int (length rec_type_dict) + int (length base_records)
                   = base_sample_size + 1000)
         then Inl (AssertionError pool_size_message)
         else case compare_queries sim S' pool'
                     \<lparr> og_bf_dice = zero_counts, blip_bf_dice = zero_counts \<rparr> of
                Inl e \<Rightarrow> Inl e
              | Inr counts \<Rightarrow> Inr (AList.update rec_type counts res_dict, g3))"
proof -
  define merged where "merged = dict_merge base_records rec_type_dict"
  obtain l g1 where sh: "rnd_shuffle R merged g = (l, g1)"
    by (cases "rnd_shuffle R merged g")
  have perm: "mset l = mset merged"
    using assms(1) sh unfolding shuffle_permutes_def by (metis fst_conv)
  have "distinct (map fst merged)"
    unfolding merged_def dict_merge_def by (rule dict_of_items_keys_distinct)
  moreover have "mset (map fst l) = mset (map fst merged)"
    using perm by simp
  ultimately have dist: "distinct (map fst l)"
    by (metis mset_eq_imp_distinct_iff)
  then have pool: "dict_of_items l = l"
    by (rule dict_of_items_distinct)
  have len_l: "length l = length merged"
    using perm by (metis size_mset)
  have "set l = set merged"
    using perm by (metis set_mset_mset)
  also have "\<dots> \<subseteq> set (base_records @ rec_type_dict)"
    unfolding merged_def dict_merge_def by (rule dict_of_items_subset)
  finally have sub: "set l \<subseteq> set base_records \<union> set rec_type_dict"
    by simp
  have og_pool: "\<forall>(k, r) \<in> set l. og_bf r \<noteq> None"
  proof (intro ballI)
    fix x assume "x \<in> set l"
    then have "x \<in> set base_records \<union> set rec_type_dict"
      using sub by blast
    then show "case x of (k, r) \<Rightarrow> og_bf r \<noteq> None"
      using assms(5) by blast
  qed
  have og_sub: "\<forall>(k, r) \<in> set rec_type_dict. og_bf r \<noteq> None"
    using assms(5) by auto
  obtain S' g2 where p1: "harden_records R h rec_type_dict g1 = Inr (S', g2)"
    using harden_records_total [OF og_sub, of R h g1] by blast
  obtain pool' g3 where p2: "harden_records R h l g2 = Inr (pool', g3)"
    using harden_records_total [OF og_pool, of R h g2] by blast
  have len1: "length S' = length rec_type_dict"
    using p1 by (rule harden_records_length)
  have len2: "length pool' = length merged"
    using harden_records_length [OF p2] len_l by simp
  have run: "compare_subset R sim blip_sel_method blip_flip_prob base_sample_size base_records
      rec_type rec_type_dict res_dict g =
    (if \<not> (int (length merged) = int (length rec_type_dict) + int (length base_records)
             \<and> int (length rec_type_dict) + int (length base_records) = base_sample_size + 1000)
     then Inl (AssertionError pool_size_message)
     else case compare_queries sim S' pool'
                 \<lparr> og_bf_dice = zero_counts, blip_bf_dice = zero_counts \<rparr> of
            Inl e \<Rightarrow> Inl e
          | Inr counts \<Rightarrow> Inr (AList.update rec_type counts res_dict, g3))"
    unfolding compare_subset_def
    using assms(2,3)
    by (simp add: merged_def [symmetric] sh pool assms(4) p1 p2 len1 len2)
  show ?thesis
    using sh perm dist sub p1 p2 run unfolding merged_def by blast
qed

text \<open>
  Claim C9, as stated, fails: the assertion also compares the sum of the two sizes with
  the base sample size plus 1000.  With one record in the subset, one in the base pool
  and base sample size 1, the merged pool has the size of the subset plus the size of the
  base pool, and the run is aborted by the size assertion all the same.
\<close>
theorem compare_subset_size_check_counterexample:
  "compare_subset (counter_gen :: (nat, string \<times> rec_data) random_module) bit_array_dice_sim
     ''ala'' 0 1 [(''v1'', encoded_rec [''ab''] [True, False])]
     ''r1'' [(''v2'', encoded_rec [''cd''] [False, True])] [] 0
     = Inl (AssertionError pool_size_message)
   \<and> length (dict_merge [(''v1'', encoded_rec [''ab''] [True, False])]
                         [(''v2'', encoded_rec [''cd''] [False, True])])
     = length [(''v2'', encoded_rec [''cd''] [False, True])]
       + length [(''v1'', encoded_rec [''ab''] [True, False])]"
  by (simp add: compare_subset_def FILTERED_ID_TYPES_def
      dict_merge_def dict_of_items_def counter_gen_def BLIP_init_def encoded_rec_def
      harden_bf_bits harden_bit_def Let_def)

text \<open>
  Claim C9, amended.  After merging a subset with the base pool (and hardening both), the
  engine asserts that the size of the comparison pool equals the size of the subset plus
  the size of the base pool, and that this sum equals the base sample size plus 1000; it
  aborts with the size message exactly when one of the two equalities fails, and the
  failure of a subset aborts the loop over the subsets with the same error.  The label,
  the hardener configuration and the records are such that the steps before the assertion
  succeed.
\<close>
theorem compare_subset_size_check:
  assumes "shuffle_permutes R"
    and "rec_type \<in> set FILTERED_ID_TYPES" and "rec_type \<notin> fst ` set res_dict"
    and "BLIP_init blip_sel_method blip_flip_prob (Some 42) = Inr h"
    and "\<forall>(k, r) \<in> set base_records \<union> set rec_type_dict. og_bf r \<noteq> None"
  shows "(compare_subset R sim blip_sel_method blip_flip_prob base_sample_size base_records
            rec_type rec_type_dict res_dict g = Inl (AssertionError pool_size_message)
          \<longleftrightarrow> \<not> (int (length (dict_merge base_records rec_type_dict))
                     = int (length rec_type_dict) + int (length base_records)
                 \<and> int (length rec_type_dict) + int (length base_records)
                     = base_sample_size + 1000))
       \<and> (rec_type \<noteq> ''b'' \<and>
            compare_subset R sim blip_sel_method blip_flip_prob base_sample_size base_records
              rec_type rec_type_dict res_dict g = Inl (AssertionError pool_size_message)
          \<longrightarrow> compare_subsets R sim blip_sel_method blip_flip_prob base_sample_size base_records
                ((rec_type, rec_type_dict) # later) res_dict g
              = Inl (AssertionError pool_size_message))"
proof -
  from compare_subset_run [OF assms, where sim = sim and base_sample_size = base_sample_size
      and g = g]
  obtain S' pool' g3 where run:
    "compare_subset R sim blip_sel_method blip_flip_prob base_sample_size base_records
          rec_type rec_type_dict res_dict g =
        (if \<not> (int (length (dict_merge base_records rec_type_dict))
                   = int (length rec_type_dict) + int (length base_records)
                 \<and> int (length rec_type_dict) + int (length base_records)
                   = base_sample_size + 1000)
         then Inl (AssertionError pool_size_message)
         else case compare_queries sim S' pool'
                     \<lparr> og_bf_dice = zero_counts, blip_bf_dice = zero_counts \<rparr> of
                Inl e \<Rightarrow> Inl e
              | Inr counts \<Rightarrow> Inr (AList.update rec_type counts res_dict, g3))"
    by blast
  have passes: "(case compare_queries sim S' pool'
                     \<lparr> og_bf_dice = zero_counts, blip_bf_dice = zero_counts \<rparr> of
                Inl e \<Rightarrow> Inl e
              | Inr counts \<Rightarrow> Inr (AList.update rec_type counts res_dict, g3))
      \<noteq> Inl (AssertionError pool_size_message)"
    using compare_queries_errors [of sim S' pool']
    by (auto split: sum.splits)
  have check: "compare_subset R sim blip_sel_method blip_flip_prob base_sample_size base_records
            rec_type rec_type_dict res_dict g = Inl (AssertionError pool_size_message)
          \<longleftrightarrow> \<not> (int (length (dict_merge base_records rec_type_dict))
                     = int (length rec_type_dict) + int (length base_records)
                 \<and> int (length rec_type_dict) + int (length base_records)
                     = base_sample_size + 1000)"
    unfolding run using passes by (simp only: split: if_splits) blast
  have abort: "compare_subsets R sim blip_sel_method blip_flip_prob base_sample_size base_records
                ((rec_type, rec_type_dict) # later) res_dict g
              = Inl (AssertionError pool_size_message)"
    if "rec_type \<noteq> ''b''"
      and "compare_subset R sim blip_sel_method blip_flip_prob base_sample_size base_records
              rec_type rec_type_dict res_dict g = Inl (AssertionError pool_size_message)"
    using that by simp
  show ?thesis
    using check abort by blast
qed

text \<open>
  The amended claim C9 on an input that passes the assertion.
\<close>
theorem compare_subset_size_check_witness:
  "compare_subset (counter_gen :: (nat, string \<times> rec_data) random_module) bit_array_dice_sim
     ''ala'' 0 (- 998) [(''v1'', encoded_rec [''ab''] [True, False])]
     ''r1'' [(''v2'', encoded_rec [''cd''] [False, True])] [] 0
     \<noteq> Inl (AssertionError pool_size_message)"
proof -
  have a: "shuffle_permutes (counter_gen :: (nat, string \<times> rec_data) random_module)"
    by (rule counter_gen_shuffle_permutes)
  have b: "''r1'' \<in> set FILTERED_ID_TYPES"
    by (simp add: FILTERED_ID_TYPES_def)
  have c: "''r1'' \<notin> fst ` set ([] :: (string \<times> sim_counts) list)"
    by simp
  have d: "BLIP_init ''ala'' 0 (Some 42) =
      Inr \<lparr> blip_type = ''BLP'', sel_method = ''ala'', random_seed = Some 42, blip_prob = 0 \<rparr>"
    by (simp add: BLIP_init_def)
  have e: "\<forall>(k, r) \<in> set [(''v1'', encoded_rec [''ab''] [True, False])]
      \<union> set [(''v2'', encoded_rec [''cd''] [False, True])]. og_bf r \<noteq> None"
    by (simp add: encoded_rec_def)
  show ?thesis
    using compare_subset_size_check [OF a b c d e, where sim = bit_array_dice_sim
        and base_sample_size = "- 998" and g = 0]
    by (simp add: dict_merge_def dict_of_items_def)
qed

text \<open>
  The run completes on well-formed input: a dictionary of subsets with a base pool, known
  labels, records that carry their q-gram set and original Bloom filter, and, for every
  subset, identifiers disjoint from the base pool's and the size that the assertion
  expects.
\<close>

lemma harden_records_attrs:
  "harden_records R h d g = Inr (d', g') \<Longrightarrow> \<forall>(k, r) \<in> set d. q_gram_set r \<noteq> None \<Longrightarrow>
   \<forall>(k, r) \<in> set d'. has_all_attributes r"
proof (induction d arbitrary: d' g g')
  case Nil
  then show ?case by simp
next
  case (Cons x d)
  obtain rec_id rec_data where x: "x = (rec_id, rec_data)" by (cases x)
  from Cons.prems(1) obtain bf blip_bf g1 rest' where
    bf: "og_bf rec_data = Some bf" and
    rest: "harden_records R h d g1 = Inr (rest', g')" and
    d': "d' = (rec_id, rec_data\<lparr>hd_bf := Some blip_bf\<rparr>) # rest'"
    by (auto simp: x split: option.splits sum.splits prod.splits)
  have qs: "q_gram_set rec_data \<noteq> None"
    using Cons.prems(2) x by simp
  have "\<forall>(k, r) \<in> set d. q_gram_set r \<noteq> None"
    using Cons.prems(2) by simp
  from Cons.IH [OF rest this] have "\<forall>(k, r) \<in> set rest'. has_all_attributes r" .
  then show ?case
    using qs bf by (simp add: d' has_all_attributes_def)
qed

lemma compare_query_completes:
  assumes "has_all_attributes rec_data"
    and "\<forall>(cid, c) \<in> set pool. has_all_attributes c"
    and "distinct (map fst pool)" and "pool \<noteq> []"
  shows "\<exists>res'. compare_query sim rec_id rec_data pool res = Inr res'"
proof -
  obtain qs q_og q_hd where q:
    "q_gram_set rec_data = Some qs" "og_bf rec_data = Some q_og" "hd_bf rec_data = Some q_hd"
    using assms(1) unfolding has_all_attributes_def by blast
  define og_sims where "og_sims = map (\<lambda>(cid, c). (cid, sim q_og (the (og_bf c)))) pool"
  define blip_sims where "blip_sims = map (\<lambda>(cid, c). (cid, sim q_hd (the (hd_bf c)))) pool"
  have loop: "sim_loop sim q_og q_hd pool [] [] = Inr (og_sims, blip_sims)"
    using sim_loop_all [OF assms(2,3), of "[]" "[]" sim q_og q_hd]
    by (simp add: og_sims_def blip_sims_def)
  have "og_sims \<noteq> []" "blip_sims \<noteq> []"
    using assms(4) by (simp_all add: og_sims_def blip_sims_def)
  then obtain o1 o2 where
    "count_outcome rec_id og_sims (og_bf_dice res) = Inr (credit o1 (og_bf_dice res))"
    "count_outcome rec_id blip_sims (blip_bf_dice res) = Inr (credit o2 (blip_bf_dice res))"
    using count_outcome_credits by meson
  then show ?thesis
    by (simp add: compare_query_def q loop)
qed

lemma compare_queries_completes:
  assumes "\<forall>(cid, c) \<in> set pool. has_all_attributes c"
    and "distinct (map fst pool)" and "pool \<noteq> []"
  shows "\<forall>(k, r) \<in> set qs. has_all_attributes r \<Longrightarrow>
    \<exists>res'. compare_queries sim qs pool res = Inr res'"
proof (induction qs arbitrary: res)
  case Nil
  show ?case by simp
next
  case (Cons x qs)
  obtain rec_id rec_data where x: "x = (rec_id, rec_data)" by (cases x)
  have "has_all_attributes rec_data"
    using Cons.prems x by simp
  from compare_query_completes [OF this assms, of sim rec_id res]
  obtain res1 where one: "compare_query sim rec_id rec_data pool res = Inr res1"
    by blast
  have "\<forall>(k, r) \<in> set qs. has_all_attributes r"
    using Cons.prems by simp
  from Cons.IH [OF this, of res1] show ?case
    by (simp add: x one)
qed

lemma compare_subset_completes:
  assumes "shuffle_permutes R"
    and "rec_type \<in> set FILTERED_ID_TYPES" and "rec_type \<notin> fst ` set res_dict"
    and "BLIP_init blip_sel_method blip_flip_prob (Some 42) = Inr h"
    and "\<forall>(k, r) \<in> set base_records \<union> set rec_type_dict. og_bf r \<noteq> None"
    and "\<forall>(k, r) \<in> set base_records \<union> set rec_type_dict. q_gram_set r \<noteq> None"
    and "int (length (dict_merge base_records rec_type_dict))
           = int (length rec_type_dict) + int (length base_records)"
    and "int (length rec_type_dict) + int (length base_records) = base_sample_size + 1000"
  shows "\<exists>counts g'. compare_subset R sim blip_sel_method blip_flip_prob base_sample_size
      base_records rec_type rec_type_dict res_dict g
        = Inr (AList.update rec_type counts res_dict, g')"
proof -
  from compare_subset_run [OF assms(1-5), where sim = sim
      and base_sample_size = base_sample_size and g = g]
  obtain l g1 S' g2 pool' g3 where
    perm: "mset l = mset (dict_merge base_records rec_type_dict)" and
    dist: "distinct (map fst l)" and
    sub: "set l \<subseteq> set base_records \<union> set rec_type_dict" and
    p1: "harden_records R h rec_type_dict g1 = Inr (S', g2)" and
    p2: "harden_records R h l g2 = Inr (pool', g3)" and
    run: "compare_subset R sim blip_sel_method blip_flip_prob base_sample_size base_records
          rec_type rec_type_dict res_dict g =
        (if \<not> (int (length (dict_merge base_records rec_type_dict))
                   = int (length rec_type_dict) + int (length base_records)
                 \<and> int (length rec_type_dict) + int (length base_records)
                   = base_sample_size + 1000)
         then Inl (AssertionError pool_size_message)
         else case compare_queries sim S' pool'
                     \<lparr> og_bf_dice = zero_counts, blip_bf_dice = zero_counts \<rparr> of
                Inl e \<Rightarrow> Inl e
              | Inr counts \<Rightarrow> Inr (AList.update rec_type counts res_dict, g3))"
    by blast
  have qs_sub: "\<forall>(k, r) \<in> set rec_type_dict. q_gram_set r \<noteq> None"
    using assms(6) by auto
  have qs_pool: "\<forall>(k, r) \<in> set l. q_gram_set r \<noteq> None"
  proof (intro ballI)
    fix x assume "x \<in> set l"
    then have "x \<in> set base_records \<union> set rec_type_dict"
      using sub by blast
    then show "case x of (k, r) \<Rightarrow> q_gram_set r \<noteq> None"
      using assms(6) by blast
  qed
  have attrs_S: "\<forall>(k, r) \<in> set S'. has_all_attributes r"
    using harden_records_attrs [OF p1 qs_sub] .
  have attrs_pool: "\<forall>(cid, c) \<in> set pool'. has_all_attributes c"
    using harden_records_attrs [OF p2 qs_pool] .
  have dist_pool: "distinct (map fst pool')"
    using harden_records_keys [OF p2] dist by simp
  show ?thesis
  proof (cases "S' = []")
    case True
    then show ?thesis
      unfolding run using assms(7,8) by auto
  next
    case False
    have "length S' = length rec_type_dict"
      using p1 by (rule harden_records_length)
    moreover have "0 < length S'"
      using False by simp
    ultimately have "0 < length rec_type_dict"
      by simp
    then have "0 < length (dict_merge base_records rec_type_dict)"
      using assms(7) by linarith
    moreover have "length pool' = length (dict_merge base_records rec_type_dict)"
      using harden_records_length [OF p2] perm by (metis size_mset)
    ultimately have ne: "pool' \<noteq> []"
      by auto
    from compare_queries_completes [OF attrs_pool dist_pool ne attrs_S, of sim
        "\<lparr> og_bf_dice = zero_counts, blip_bf_dice = zero_counts \<rparr>"]
    obtain counts where "compare_queries sim S' pool'
        \<lparr> og_bf_dice = zero_counts, blip_bf_dice = zero_counts \<rparr> = Inr counts"
      by blast
    then show ?thesis
      unfolding run using assms(7,8) by auto
  qed
qed

lemma compare_subsets_completes:
  assumes "shuffle_permutes R"
    and "BLIP_init blip_sel_method blip_flip_prob (Some 42) = Inr h"
    and "\<forall>(k, r) \<in> set base_records. og_bf r \<noteq> None \<and> q_gram_set r \<noteq> None"
  shows "distinct (map fst items) \<Longrightarrow> fst ` set res_dict \<inter> fst ` set items = {} \<Longrightarrow>
    \<forall>(rec_type, rec_type_dict) \<in> set items. rec_type \<noteq> ''b'' \<longrightarrow>
        rec_type \<in> set FILTERED_ID_TYPES
      \<and> (\<forall>(k, r) \<in> set rec_type_dict. og_bf r \<noteq> None \<and> q_gram_set r \<noteq> None)
      \<and> int (length (dict_merge base_records rec_type_dict))
            = int (length rec_type_dict) + int (length base_records)
      \<and> int (length rec_type_dict) + int (length base_records) = base_sample_size + 1000 \<Longrightarrow>
    \<exists>res' g'. compare_subsets R sim blip_sel_method blip_flip_prob base_sample_size
        base_records items res_dict g = Inr (res', g')"
proof (induction items arbitrary: res_dict g)
  case Nil
  show ?case by simp
next
  case (Cons x items)
  obtain rt S where x: "x = (rt, S)" by (cases x)
  have d: "distinct (map fst items)" and fresh_later: "rt \<notin> fst ` set items"
    using Cons.prems(1) x by auto
  have later: "\<forall>(rec_type, rec_type_dict) \<in> set items. rec_type \<noteq> ''b'' \<longrightarrow>
        rec_type \<in> set FILTERED_ID_TYPES
      \<and> (\<forall>(k, r) \<in> set rec_type_dict. og_bf r \<noteq> None \<and> q_gram_set r \<noteq> None)
      \<and> int (length (dict_merge base_records rec_type_dict))
            = int (length rec_type_dict) + int (length base_records)
      \<and> int (length rec_type_dict) + int (length base_records) = base_sample_size + 1000"
    using Cons.prems(3) by simp
  show ?case
  proof (cases "rt = ''b''")
    case True
    have "fst ` set res_dict \<inter> fst ` set items = {}"
      using Cons.prems(2) by auto
    from Cons.IH [OF d this later, of g] show ?thesis
      by (simp add: x True)
  next
    case False
    have here: "rt \<in> set FILTERED_ID_TYPES"
      "\<forall>(k, r) \<in> set S. og_bf r \<noteq> None \<and> q_gram_set r \<noteq> None"
      "int (length (dict_merge base_records S)) = int (length S) + int (length base_records)"
      "int (length S) + int (length base_records) = base_sample_size + 1000"
      using Cons.prems(3) False x by auto
    have fresh: "rt \<notin> fst ` set res_dict"
      using Cons.prems(2) x by auto
    have og: "\<forall>(k, r) \<in> set base_records \<union> set S. og_bf r \<noteq> None"
      using assms(3) here(2) by auto
    have qs: "\<forall>(k, r) \<in> set base_records \<union> set S. q_gram_set r \<noteq> None"
      using assms(3) here(2) by auto
    from compare_subset_completes [OF assms(1) here(1) fresh assms(2) og qs here(3,4),
        where sim = sim and g = g]
    obtain counts g1 where one:
      "compare_subset R sim blip_sel_method blip_flip_prob base_sample_size base_records
         rt S res_dict g = Inr (AList.update rt counts res_dict, g1)"
      by blast
    have "fst ` set (AList.update rt counts res_dict) = insert rt (fst ` set res_dict)"
      by (simp add: dom_update)
    then have "fst ` set (AList.update rt counts res_dict) \<inter> fst ` set items = {}"
      using Cons.prems(2) fresh_later by auto
    from Cons.IH [OF d this later, of g1] show ?thesis
      by (simp add: x False one)
  qed
qed

lemma compare_record_pairs_completes:
  assumes "shuffle_permutes R"
    and "BLIP_init blip_sel_method blip_flip_prob (Some 42) = Inr h"
    and "distinct (map fst data_dict)"
    and "map_of data_dict ''b'' = Some base_records"
    and "\<forall>(rec_type, rec_type_dict) \<in> set data_dict.
        rec_type \<in> set FILTERED_ID_TYPES
      \<and> (\<forall>(k, r) \<in> set rec_type_dict. og_bf r \<noteq> None \<and> q_gram_set r \<noteq> None)"
    and "\<forall>(rec_type, rec_type_dict) \<in> set data_dict. rec_type \<noteq> ''b'' \<longrightarrow>
        int (length (dict_merge base_records rec_type_dict))
            = int (length rec_type_dict) + int (length base_records)
      \<and> int (length rec_type_dict) + int (length base_records) = base_sample_size + 1000"
  shows "\<exists>res_dict g'. compare_record_pairs R sim data_dict blip_sel_method blip_flip_prob
      base_sample_size g = Inr (res_dict, g')"
proof -
  have "(''b'', base_records) \<in> set data_dict"
    using assms(4) by (rule map_of_SomeD)
  then have base: "\<forall>(k, r) \<in> set base_records. og_bf r \<noteq> None \<and> q_gram_set r \<noteq> None"
    using assms(5) by blast
  have empty: "fst ` set ([] :: (string \<times> sim_counts) list) \<inter> fst ` set data_dict = {}"
    by simp
  have each: "\<forall>(rec_type, rec_type_dict) \<in> set data_dict. rec_type \<noteq> ''b'' \<longrightarrow>
        rec_type \<in> set FILTERED_ID_TYPES
      \<and> (\<forall>(k, r) \<in> set rec_type_dict. og_bf r \<noteq> None \<and> q_gram_set r \<noteq> None)
      \<and> int (length (dict_merge base_records rec_type_dict))
            = int (length rec_type_dict) + int (length base_records)
      \<and> int (length rec_type_dict) + int (length base_records) = base_sample_size + 1000"
    using assms(5,6) by blast
  from compare_subsets_completes [OF assms(1,2) base assms(3) empty each, of sim g]
  show ?thesis
    by (simp add: compare_record_pairs_def assms(4))
qed


end
